theory Spec2Isabelle
  imports Main "HOL-Library.Multiset"
begin

section \<open>Data model\<close>

text \<open>
  The structs of the bulk-validate endpoint. Go strings are byte sequences, so a string is a
  \<open>char list\<close> (one \<open>char\<close> per byte) and \<open>len\<close> is \<open>length\<close>. Go's \<open>int\<close> is modelled
  as \<open>int\<close>: the code only compares worker counts and copies indices that are positions of a
  slice, so no arithmetic on them can wrap. \<open>ValidateResult\<close> has a field \<open>Email\<close> as well;
  it is called \<open>Email_res\<close> here because record fields share one name space.
\<close>

record CustomerPayload =
  FullName :: string
  Email :: string

record ValidateResult =
  Index :: int
  Email_res :: string
  Valid :: bool
  Message :: string

text \<open>The zero value that \<open>make([]ValidateResult, n)\<close> fills the slice with.\<close>

definition zeroResult :: ValidateResult where
  "zeroResult = \<lparr>Index = 0, Email_res = [], Valid = False, Message = []\<rparr>"

section \<open>The string functions of the standard library that the validator calls\<close>

text \<open>
  \<open>strings.TrimSpace\<close> removes leading and trailing white space as defined by Unicode
  (\<open>unicode.IsSpace\<close>). On a byte string a white-space rune is one of the UTF-8 encodings
  below: the six ASCII ones, U+0085, U+00A0, U+1680, U+2000 to U+200A, U+2028, U+2029,
  U+202F, U+205F and U+3000. A byte that does not start a well-formed encoding decodes to
  the replacement rune, which is no white space, so trimming stops there.
\<close>

definition spaceRunes :: "string list" where
  "spaceRunes =
    [[CHR 0x09], [CHR 0x0A], [CHR 0x0B], [CHR 0x0C], [CHR 0x0D], [CHR 0x20],
     [CHR 0xC2, CHR 0x85], [CHR 0xC2, CHR 0xA0],
     [CHR 0xE1, CHR 0x9A, CHR 0x80],
     [CHR 0xE2, CHR 0x80, CHR 0x80], [CHR 0xE2, CHR 0x80, CHR 0x81],
     [CHR 0xE2, CHR 0x80, CHR 0x82], [CHR 0xE2, CHR 0x80, CHR 0x83],
     [CHR 0xE2, CHR 0x80, CHR 0x84], [CHR 0xE2, CHR 0x80, CHR 0x85],
     [CHR 0xE2, CHR 0x80, CHR 0x86], [CHR 0xE2, CHR 0x80, CHR 0x87],
     [CHR 0xE2, CHR 0x80, CHR 0x88], [CHR 0xE2, CHR 0x80, CHR 0x89],
     [CHR 0xE2, CHR 0x80, CHR 0x8A],
     [CHR 0xE2, CHR 0x80, CHR 0xA8], [CHR 0xE2, CHR 0x80, CHR 0xA9],
     [CHR 0xE2, CHR 0x80, CHR 0xAF],
     [CHR 0xE2, CHR 0x81, CHR 0x9F],
     [CHR 0xE3, CHR 0x80, CHR 0x80]]"

text \<open>
  The number of bytes of the white-space rune a string starts with, and of the one it ends
  with; 0 when there is none. No encoding is a prefix or a suffix of another one, so the
  first match is the only one.
\<close>

definition leadingSpace :: "string \<Rightarrow> nat" where
  "leadingSpace s =
    (case find (\<lambda>sp. take (length sp) s = sp) spaceRunes of
       None \<Rightarrow> 0
     | Some sp \<Rightarrow> length sp)"

definition trailingSpace :: "string \<Rightarrow> nat" where
  "trailingSpace s =
    (case find (\<lambda>sp. length sp \<le> length s \<and> drop (length s - length sp) s = sp) spaceRunes of
       None \<Rightarrow> 0
     | Some sp \<Rightarrow> length sp)"

lemma spaceRunes_bounds: "sp \<in> set spaceRunes \<Longrightarrow> 0 < length sp \<and> length sp \<le> 3"
  by (auto simp: spaceRunes_def)

lemma leadingSpace_le: "leadingSpace s \<le> length s"
proof (cases "find (\<lambda>sp. take (length sp) s = sp) spaceRunes")
  case None
  then show ?thesis by (simp add: leadingSpace_def)
next
  case (Some sp)
  then have "take (length sp) s = sp"
    by (auto simp: find_Some_iff)
  then have "length (take (length sp) s) = length sp"
    by simp
  then have "length sp \<le> length s"
    by (simp add: min_def split: if_splits)
  with Some show ?thesis by (simp add: leadingSpace_def)
qed

lemma trailingSpace_le: "trailingSpace s \<le> length s"
  by (auto simp: trailingSpace_def find_Some_iff split: option.splits)

function TrimLeftSpace :: "string \<Rightarrow> string" where
  "TrimLeftSpace s =
    (if leadingSpace s = 0 then s else TrimLeftSpace (drop (leadingSpace s) s))"
  by pat_completeness auto
termination
proof (relation "measure length")
  show "wf (measure length)" by simp
next
  fix s :: string
  assume "leadingSpace s \<noteq> 0"
  moreover have "leadingSpace s \<le> length s" by (rule leadingSpace_le)
  ultimately show "(drop (leadingSpace s) s, s) \<in> measure length" by simp
qed

function TrimRightSpace :: "string \<Rightarrow> string" where
  "TrimRightSpace s =
    (if trailingSpace s = 0 then s
     else TrimRightSpace (take (length s - trailingSpace s) s))"
  by pat_completeness auto
termination
proof (relation "measure length")
  show "wf (measure length)" by simp
next
  fix s :: string
  assume "trailingSpace s \<noteq> 0"
  moreover have "trailingSpace s \<le> length s" by (rule trailingSpace_le)
  ultimately show "(take (length s - trailingSpace s) s, s) \<in> measure length" by simp
qed

declare TrimLeftSpace.simps [simp del] TrimRightSpace.simps [simp del]

text \<open>\<open>TrimFunc(s, unicode.IsSpace)\<close>: the left end first, then the right end of the rest.\<close>

definition TrimSpace :: "string \<Rightarrow> string" where
  "TrimSpace s = TrimRightSpace (TrimLeftSpace s)"

text \<open>\<open>strings.Contains(s, substr)\<close>: some position of \<open>s\<close> starts with \<open>substr\<close>.\<close>

fun Contains :: "string \<Rightarrow> string \<Rightarrow> bool" where
  "Contains [] substr = (substr = [])"
| "Contains (c # s) substr = (take (length substr) (c # s) = substr \<or> Contains s substr)"

text \<open>
  \<open>strings.HasSuffix(s, suffix)\<close> is
  \<open>len(s) >= len(suffix) && s[len(s)-len(suffix):] == suffix\<close>.
\<close>

definition HasSuffix :: "string \<Rightarrow> string \<Rightarrow> bool" where
  "HasSuffix s suffix =
    (length suffix \<le> length s \<and> drop (length s - length suffix) s = suffix)"

text \<open>
  \<open>strings.ToLower\<close> on the bytes below 0x80: \<open>'A'..'Z'\<close> move to \<open>'a'..'z'\<close>, every
  other byte stays. On a string with a byte from 0x80 on, Go maps rune by rune instead; a
  rune outside ASCII lowers to an ASCII letter only for U+0130 (to \<open>i\<close>) and U+212A (to
  \<open>k\<close>), and an ill-formed byte becomes U+FFFD. Neither letter occurs in \<open>@example.com\<close>,
  so the twelve last bytes of the lowered string spell \<open>@example.com\<close> exactly when the
  twelve last bytes of the input do so up to ASCII case, which is what this model computes.
  The validator uses the lowered string for that suffix test only.
\<close>

definition toLowerByte :: "char \<Rightarrow> char" where
  "toLowerByte c =
    (if (65::nat) \<le> of_char c \<and> of_char c \<le> (90::nat)
     then char_of (of_char c + (32::nat)) else c)"

definition ToLower :: "string \<Rightarrow> string" where
  "ToLower s = map toLowerByte s"

section \<open>The validator\<close>

text \<open>\<open>validateCustomer\<close>, statement by statement.\<close>

definition validateCustomer :: "CustomerPayload \<Rightarrow> bool \<times> string" where
  "validateCustomer c =
    (let name = TrimSpace (FullName c);
         email = TrimSpace (Email c)
     in if name = [] then (False, ''full_name is required'')
        else if email = [] then (False, ''email is required'')
        else if \<not> Contains email ''@'' then (False, ''email must contain '@'' @ [CHR 0x27])
        else if length email > 150 then (False, ''email too long'')
        else if HasSuffix (ToLower email) ''@example.com''
          then (False, ''example.com emails are not allowed'')
        else (True, []))"

section \<open>The worker count of the handler\<close>

text \<open>
  The handler of \<open>POST /customers/bulk-validate\<close> takes \<open>req.Workers\<close>, replaces a value
  \<open>\<le> 0\<close> by 5 and then a value \<open>> 20\<close> by 20, and calls the pool with the result. There is
  no error branch on this path.
\<close>

definition handlerWorkers :: "int \<Rightarrow> int" where
  "handlerWorkers requested =
    (let workers = requested;
         workers = (if workers \<le> 0 then 5 else workers);
         workers = (if workers > 20 then 20 else workers)
     in workers)"

section \<open>The worker pool\<close>

text \<open>
  \<open>bulkValidateWithWorkerPool\<close> starts \<open>workers\<close> worker goroutines and one producer
  goroutine, and then collects in the calling goroutine. The goroutines only meet on the two
  unbuffered channels \<open>jobs\<close> and \<open>resultsCh\<close>, where a send and a receive happen together.
  The model is a transition system whose events are these meetings and the local steps of
  one goroutine; a schedule is a list of events, and every interleaving the Go scheduler can
  choose is a schedule. \<open>time.Sleep\<close> only delays a worker and is part of its local step.
\<close>

type_synonym job = "int \<times> CustomerPayload"

text \<open>
  A worker is at the head of \<open>for j := range jobs\<close>, or holds a job it has received,
  or offers a result on \<open>resultsCh\<close>, or has left the loop because \<open>jobs\<close> is closed.
\<close>

datatype worker = Waiting | Working job | Sending ValidateResult | Exited

text \<open>
  The calling goroutine is in the loop \<open>for i := 0; i < len(customers); i++\<close> with its
  counter and the slice \<open>out\<close>, or has returned \<open>out\<close>, or has panicked because
  \<open>out[r.Index]\<close> was out of range.
\<close>

datatype collector =
  Collecting nat "ValidateResult list"
| Returned "ValidateResult list"
| Panicked

text \<open>
  \<open>sent\<close> is the position of the producer in \<open>for i, c := range customers\<close>, \<open>closed\<close>
  tells whether it has executed \<open>close(jobs)\<close>. \<open>received\<close> is a history variable: the
  results the collector has taken from \<open>resultsCh\<close>, in order of arrival.
\<close>

record pool =
  sent :: nat
  closed :: bool
  workers :: "worker list"
  collector :: collector
  received :: "ValidateResult list"

datatype event =
  Dispatch nat
| CloseJobs
| Validate nat
| Deliver nat
| Exit nat
| Return

text \<open>What a worker builds from a job: the \<open>ValidateResult\<close> literal of the worker loop.\<close>

definition outcome :: "job \<Rightarrow> ValidateResult" where
  "outcome j =
    (let (ok, msg) = validateCustomer (snd j)
     in \<lparr>Index = fst j, Email_res = TrimSpace (Email (snd j)), Valid = ok, Message = msg\<rparr>)"

text \<open>
  The state when the calling goroutine reaches its loop: the \<open>go\<close> statements have run,
  \<open>out\<close> is allocated, and no goroutine has passed a channel operation yet (before the
  producer exists no worker can receive). A count \<open>\<le> 0\<close> starts no worker.
\<close>

definition init :: "CustomerPayload list \<Rightarrow> int \<Rightarrow> pool" where
  "init customers n =
    \<lparr>sent = 0, closed = False, workers = replicate (nat n) Waiting,
     collector = Collecting 0 (replicate (length customers) zeroResult),
     received = []\<rparr>"

text \<open>
  One event. \<open>Dispatch k\<close>: the producer's send of the next job meets the receive of worker
  \<open>k\<close>. \<open>CloseJobs\<close>: the producer has left its loop and closes \<open>jobs\<close>. \<open>Validate k\<close>:
  worker \<open>k\<close> sleeps, validates and builds its result. \<open>Deliver k\<close>: the send of worker \<open>k\<close>
  meets the collector's receive, and the collector stores the result at its index, which
  panics when the index is out of range. \<open>Exit k\<close>: worker \<open>k\<close> finds \<open>jobs\<close> closed and
  leaves. \<open>Return\<close>: the collector's loop condition fails and it returns \<open>out\<close>.
  An event that is not enabled gives \<open>None\<close>.
\<close>

fun step :: "CustomerPayload list \<Rightarrow> event \<Rightarrow> pool \<Rightarrow> pool option" where
  "step customers (Dispatch k) s =
    (if sent s < length customers \<and> k < length (workers s) \<and> workers s ! k = Waiting
     then Some (s\<lparr>sent := Suc (sent s),
                  workers := (workers s)[k := Working (int (sent s), customers ! sent s)]\<rparr>)
     else None)"
| "step customers CloseJobs s =
    (if \<not> sent s < length customers \<and> \<not> closed s
     then Some (s\<lparr>closed := True\<rparr>)
     else None)"
| "step customers (Validate k) s =
    (if k < length (workers s)
     then (case workers s ! k of
             Working j \<Rightarrow> Some (s\<lparr>workers := (workers s)[k := Sending (outcome j)]\<rparr>)
           | _ \<Rightarrow> None)
     else None)"
| "step customers (Deliver k) s =
    (if k < length (workers s)
     then (case (workers s ! k, collector s) of
             (Sending r, Collecting i out) \<Rightarrow>
               if i < length customers
               then (if 0 \<le> Index r \<and> nat (Index r) < length out
                     then Some (s\<lparr>workers := (workers s)[k := Waiting],
                                  collector := Collecting (Suc i) (out[nat (Index r) := r]),
                                  received := received s @ [r]\<rparr>)
                     else Some (s\<lparr>workers := (workers s)[k := Waiting],
                                  collector := Panicked,
                                  received := received s @ [r]\<rparr>))
               else None
           | _ \<Rightarrow> None)
     else None)"
| "step customers (Exit k) s =
    (if closed s \<and> k < length (workers s) \<and> workers s ! k = Waiting
     then Some (s\<lparr>workers := (workers s)[k := Exited]\<rparr>)
     else None)"
| "step customers Return s =
    (case collector s of
       Collecting i out \<Rightarrow>
         if i < length customers then None else Some (s\<lparr>collector := Returned out\<rparr>)
     | _ \<Rightarrow> None)"

text \<open>Running a schedule; \<open>None\<close> when one of its events is not enabled where it stands.\<close>

fun exec :: "CustomerPayload list \<Rightarrow> event list \<Rightarrow> pool \<Rightarrow> pool option" where
  "exec customers [] s = Some s"
| "exec customers (e # es) s =
    (case step customers e s of
       None \<Rightarrow> None
     | Some s' \<Rightarrow> exec customers es s')"

text \<open>
  The events that can concern a pool, and the test that none of them is enabled: every
  goroutine that is still alive is blocked for ever.
\<close>

definition events :: "pool \<Rightarrow> event list" where
  "events s =
    CloseJobs # Return #
    concat (map (\<lambda>k. [Dispatch k, Validate k, Deliver k, Exit k]) [0..<length (workers s)])"

definition blocked :: "CustomerPayload list \<Rightarrow> pool \<Rightarrow> bool" where
  "blocked customers s = list_all (\<lambda>e. step customers e s = None) (events s)"

text \<open>The slice the specification promises: the outcome of record \<open>i\<close> at position \<open>i\<close>.\<close>

definition expected :: "CustomerPayload list \<Rightarrow> ValidateResult list" where
  "expected customers = map (\<lambda>i. outcome (int i, customers ! i)) [0..<length customers]"

section \<open>An invariant of the pool\<close>

text \<open>
  The job indices that workers hold (as a job, or inside a result they offer) together with
  the indices of the results already received are exactly the positions the producer has
  passed, each once. Every job and result in flight is the one the code builds for its
  position, and \<open>out\<close> holds the outcome of every position received so far and the zero
  value elsewhere.
\<close>

fun holds :: "worker \<Rightarrow> int multiset" where
  "holds Waiting = {#}"
| "holds (Working j) = {#fst j#}"
| "holds (Sending r) = {#Index r#}"
| "holds Exited = {#}"

definition inflight :: "worker list \<Rightarrow> int multiset" where
  "inflight ws = sum_list (map holds ws)"

fun worker_ok :: "CustomerPayload list \<Rightarrow> nat \<Rightarrow> worker \<Rightarrow> bool" where
  "worker_ok cs p (Working j) = (\<exists>k<p. j = (int k, cs ! k))"
| "worker_ok cs p (Sending r) = (\<exists>k<p. r = outcome (int k, cs ! k))"
| "worker_ok cs p w = True"

definition collector_ok :: "CustomerPayload list \<Rightarrow> ValidateResult list \<Rightarrow> collector \<Rightarrow> bool" where
  "collector_ok cs rs c =
    (case c of
       Collecting i out \<Rightarrow>
         i = length rs \<and> length out = length cs \<and>
         (\<forall>k<length cs. out ! k =
            (if int k \<in> Index ` set rs then outcome (int k, cs ! k) else zeroResult))
     | Returned out \<Rightarrow> out = expected cs \<and> length rs = length cs
     | Panicked \<Rightarrow> False)"

definition pool_inv :: "CustomerPayload list \<Rightarrow> pool \<Rightarrow> bool" where
  "pool_inv cs s \<longleftrightarrow>
    sent s \<le> length cs \<and>
    (closed s \<longrightarrow> sent s = length cs) \<and>
    (Exited \<in> set (workers s) \<longrightarrow> closed s) \<and>
    (\<forall>w\<in>set (workers s). worker_ok cs (sent s) w) \<and>
    (\<forall>r\<in>set (received s). \<exists>k<sent s. r = outcome (int k, cs ! k)) \<and>
    inflight (workers s) + mset (map Index (received s)) = mset (map int [0..<sent s]) \<and>
    collector_ok cs (received s) (collector s)"

lemma pool_invI:
  assumes "sent s \<le> length cs"
    and "closed s \<Longrightarrow> sent s = length cs"
    and "Exited \<in> set (workers s) \<Longrightarrow> closed s"
    and "\<And>w. w \<in> set (workers s) \<Longrightarrow> worker_ok cs (sent s) w"
    and "\<And>r. r \<in> set (received s) \<Longrightarrow> \<exists>k<sent s. r = outcome (int k, cs ! k)"
    and "inflight (workers s) + mset (map Index (received s)) = mset (map int [0..<sent s])"
    and "collector_ok cs (received s) (collector s)"
  shows "pool_inv cs s"
  unfolding pool_inv_def using assms by blast

lemma pool_invD:
  assumes "pool_inv cs s"
  shows "sent s \<le> length cs"
    and "closed s \<Longrightarrow> sent s = length cs"
    and "Exited \<in> set (workers s) \<Longrightarrow> closed s"
    and "\<And>w. w \<in> set (workers s) \<Longrightarrow> worker_ok cs (sent s) w"
    and "\<And>r. r \<in> set (received s) \<Longrightarrow> \<exists>k<sent s. r = outcome (int k, cs ! k)"
    and "inflight (workers s) + mset (map Index (received s)) = mset (map int [0..<sent s])"
    and "collector_ok cs (received s) (collector s)"
  using assms unfolding pool_inv_def by blast+

lemma inflight_update:
  "k < length ws \<Longrightarrow> inflight (ws[k := w]) + holds (ws ! k) = inflight ws + holds w"
  unfolding inflight_def
  by (induction ws arbitrary: k) (auto simp: nth_Cons' split: nat.splits)

lemma Index_outcome [simp]: "Index (outcome j) = fst j"
  by (simp add: outcome_def split: prod.splits)

lemma inflight_replicate [simp]: "inflight (replicate n Waiting) = {#}"
  by (induction n) (auto simp: inflight_def)

lemma inv_init: "pool_inv cs (init cs n)"
  by (simp add: pool_inv_def init_def collector_ok_def)

lemma worker_ok_mono: "worker_ok cs p w \<Longrightarrow> p \<le> q \<Longrightarrow> worker_ok cs q w"
proof (cases w)
  case (Working j)
  assume "worker_ok cs p w" "p \<le> q"
  with Working obtain k where "k < p" "j = (int k, cs ! k)" by auto
  with \<open>p \<le> q\<close> have "k < q \<and> j = (int k, cs ! k)" by simp
  with Working show ?thesis by auto
next
  case (Sending r)
  assume "worker_ok cs p w" "p \<le> q"
  with Sending obtain k where "k < p" "r = outcome (int k, cs ! k)" by auto
  with \<open>p \<le> q\<close> have "k < q \<and> r = outcome (int k, cs ! k)" by simp
  with Sending show ?thesis by auto
qed simp_all

lemma set_update_cases: "x \<in> set (ws[k := w]) \<Longrightarrow> x = w \<or> x \<in> set ws"
  by (metis in_set_conv_nth length_list_update nth_list_update_eq nth_list_update_neq)


lemma step_length_workers:
  "step cs e s = Some s' \<Longrightarrow> length (workers s') = length (workers s)"
  by (cases e) (auto split: if_splits worker.splits collector.splits)

lemma inv_Dispatch:
  assumes inv: "pool_inv cs s" and st: "step cs (Dispatch k) s = Some s'"
  shows "pool_inv cs s'"
proof -
  from st have en: "sent s < length cs" "k < length (workers s)" "workers s ! k = Waiting"
    and s': "s' = s\<lparr>sent := Suc (sent s),
                  workers := (workers s)[k := Working (int (sent s), cs ! sent s)]\<rparr>"
    by (auto split: if_splits)
  note d = pool_invD [OF inv]
  from d(2) en(1) have nc: "\<not> closed s" by auto
  with d(3) have ne: "Exited \<notin> set (workers s)" by auto
  show ?thesis
  proof (rule pool_invI)
    show "sent s' \<le> length cs" using en(1) by (simp add: s')
    show "sent s' = length cs" if "closed s'" using that nc by (simp add: s')
    show "closed s'" if "Exited \<in> set (workers s')"
      using that ne by (auto simp: s' dest: set_update_cases)
    show "worker_ok cs (sent s') w" if "w \<in> set (workers s')" for w
    proof -
      from that have "w = Working (int (sent s), cs ! sent s) \<or> w \<in> set (workers s)"
        by (auto simp: s' dest: set_update_cases)
      then show ?thesis
      proof
        assume "w = Working (int (sent s), cs ! sent s)"
        then show ?thesis by (auto simp: s')
      next
        assume "w \<in> set (workers s)"
        then have "worker_ok cs (sent s) w" by (rule d(4))
        then show ?thesis by (rule worker_ok_mono) (simp add: s')
      qed
    qed
    show "\<exists>k<sent s'. r = outcome (int k, cs ! k)" if "r \<in> set (received s')" for r
    proof -
      from that have "r \<in> set (received s)" by (simp add: s')
      then obtain j where "j < sent s" "r = outcome (int j, cs ! j)"
        using d(5) by blast
      then have "j < sent s' \<and> r = outcome (int j, cs ! j)" by (simp add: s')
      then show ?thesis by blast
    qed
    have "inflight (workers s') + holds (workers s ! k) =
        inflight (workers s) + holds (Working (int (sent s), cs ! sent s))"
      using en(2) by (simp add: s' inflight_update)
    then show "inflight (workers s') + mset (map Index (received s')) = mset (map int [0..<sent s'])"
      using d(6) en(3) by (simp add: s')
    show "collector_ok cs (received s') (collector s')"
      using d(7) by (simp add: s')
  qed
qed

lemma inv_CloseJobs:
  assumes inv: "pool_inv cs s" and st: "step cs CloseJobs s = Some s'"
  shows "pool_inv cs s'"
proof -
  from st have en: "\<not> sent s < length cs" and s': "s' = s\<lparr>closed := True\<rparr>"
    by (auto split: if_splits)
  note d = pool_invD [OF inv]
  show ?thesis
  proof (rule pool_invI)
    show "sent s' \<le> length cs" using d(1) by (simp add: s')
    show "sent s' = length cs" using d(1) en by (simp add: s')
    show "closed s'" by (simp add: s')
    show "worker_ok cs (sent s') w" if "w \<in> set (workers s')" for w
      using that d(4) by (simp add: s')
    show "\<exists>k<sent s'. r = outcome (int k, cs ! k)" if "r \<in> set (received s')" for r
      using that d(5) by (simp add: s')
    show "inflight (workers s') + mset (map Index (received s')) = mset (map int [0..<sent s'])"
      using d(6) by (simp add: s')
    show "collector_ok cs (received s') (collector s')"
      using d(7) by (simp add: s')
  qed
qed

lemma inv_Validate:
  assumes inv: "pool_inv cs s" and st: "step cs (Validate k) s = Some s'"
  shows "pool_inv cs s'"
proof -
  from st obtain j where en: "k < length (workers s)" "workers s ! k = Working j"
    and s': "s' = s\<lparr>workers := (workers s)[k := Sending (outcome j)]\<rparr>"
    by (auto split: if_splits worker.splits)
  note d = pool_invD [OF inv]
  from en have "Working j \<in> set (workers s)" by (metis nth_mem)
  then have "worker_ok cs (sent s) (Working j)" by (rule d(4))
  then have ok: "worker_ok cs (sent s) (Sending (outcome j))" by auto
  show ?thesis
  proof (rule pool_invI)
    show "sent s' \<le> length cs" using d(1) by (simp add: s')
    show "sent s' = length cs" if "closed s'" using that d(2) by (simp add: s')
    show "closed s'" if "Exited \<in> set (workers s')"
      using that d(3) by (auto simp: s' dest: set_update_cases)
    show "worker_ok cs (sent s') w" if "w \<in> set (workers s')" for w
    proof -
      from that have "w = Sending (outcome j) \<or> w \<in> set (workers s)"
        by (auto simp: s' dest: set_update_cases)
      then show ?thesis using ok d(4) by (auto simp: s')
    qed
    show "\<exists>k<sent s'. r = outcome (int k, cs ! k)" if "r \<in> set (received s')" for r
      using that d(5) by (simp add: s')
    have "inflight (workers s') + holds (workers s ! k) =
        inflight (workers s) + holds (Sending (outcome j))"
      using en(1) by (simp add: s' inflight_update)
    then show "inflight (workers s') + mset (map Index (received s')) = mset (map int [0..<sent s'])"
      using d(6) en(2) by (simp add: s')
    show "collector_ok cs (received s') (collector s')"
      using d(7) by (simp add: s')
  qed
qed

lemma inv_Exit:
  assumes inv: "pool_inv cs s" and st: "step cs (Exit k) s = Some s'"
  shows "pool_inv cs s'"
proof -
  from st have en: "closed s" "k < length (workers s)" "workers s ! k = Waiting"
    and s': "s' = s\<lparr>workers := (workers s)[k := Exited]\<rparr>"
    by (auto split: if_splits)
  note d = pool_invD [OF inv]
  show ?thesis
  proof (rule pool_invI)
    show "sent s' \<le> length cs" using d(1) by (simp add: s')
    show "sent s' = length cs" using d(2) en(1) by (simp add: s')
    show "closed s'" using en(1) by (simp add: s')
    show "worker_ok cs (sent s') w" if "w \<in> set (workers s')" for w
    proof -
      from that have "w = Exited \<or> w \<in> set (workers s)"
        by (auto simp: s' dest: set_update_cases)
      then show ?thesis using d(4) by (auto simp: s')
    qed
    show "\<exists>k<sent s'. r = outcome (int k, cs ! k)" if "r \<in> set (received s')" for r
      using that d(5) by (simp add: s')
    have "inflight (workers s') + holds (workers s ! k) = inflight (workers s) + holds Exited"
      using en(2) by (simp add: s' inflight_update)
    then show "inflight (workers s') + mset (map Index (received s')) = mset (map int [0..<sent s'])"
      using d(6) en(3) by (simp add: s')
    show "collector_ok cs (received s') (collector s')"
      using d(7) by (simp add: s')
  qed
qed


lemma inflight_size:
  assumes "pool_inv cs s"
  shows "size (inflight (workers s)) + length (received s) = sent s"
proof -
  have "size (inflight (workers s) + mset (map Index (received s))) = size (mset (map int [0..<sent s]))"
    using pool_invD(6) [OF assms] by simp
  then show ?thesis by simp
qed

lemma holds_in_inflight: "w \<in> set ws \<Longrightarrow> holds w \<subseteq># inflight ws"
  unfolding inflight_def
  by (induction ws) (auto intro: subset_mset.add_increasing)

lemma inflight_empty: "(\<And>w. w \<in> set ws \<Longrightarrow> holds w = {#}) \<Longrightarrow> inflight ws = {#}"
  unfolding inflight_def by (induction ws) auto

lemma received_indices:
  assumes inv: "pool_inv cs s" and full: "length cs \<le> length (received s)"
  shows "sent s = length cs" and "inflight (workers s) = {#}"
    and "Index ` set (received s) = int ` {0..<length cs}"
proof -
  note d = pool_invD [OF inv]
  from inflight_size [OF inv] d(1) full
  have "sent s = length cs \<and> size (inflight (workers s)) = 0" by arith
  then show a: "sent s = length cs" and b: "inflight (workers s) = {#}" by simp_all
  from d(6) a b have "mset (map Index (received s)) = mset (map int [0..<length cs])"
    by simp
  then have "set (map Index (received s)) = set (map int [0..<length cs])"
    by (rule mset_eq_setD)
  then show "Index ` set (received s) = int ` {0..<length cs}" by simp
qed

lemma inv_Return:
  assumes inv: "pool_inv cs s" and st: "step cs Return s = Some s'"
  shows "pool_inv cs s'"
proof -
  from st obtain i out where en: "collector s = Collecting i out" "\<not> i < length cs"
    and s': "s' = s\<lparr>collector := Returned out\<rparr>"
    by (auto split: collector.splits if_splits)
  note d = pool_invD [OF inv]
  from d(7) en(1) have c: "i = length (received s)" "length out = length cs"
    "\<And>k. k < length cs \<Longrightarrow> out ! k =
       (if int k \<in> Index ` set (received s) then outcome (int k, cs ! k) else zeroResult)"
    by (auto simp: collector_ok_def)
  from c(1) en(2) have full: "length cs \<le> length (received s)" by simp
  note f = received_indices [OF inv full]
  from inflight_size [OF inv] f(1,2) have len: "length (received s) = length cs" by simp
  have "out = expected cs"
  proof (rule nth_equalityI)
    show "length out = length (expected cs)" using c(2) by (simp add: expected_def)
  next
    fix k assume "k < length out"
    with c(2) have k: "k < length cs" by simp
    then have "int k \<in> Index ` set (received s)" using f(3) by simp
    with c(3) [OF k] have "out ! k = outcome (int k, cs ! k)" by simp
    with k show "out ! k = expected cs ! k" by (simp add: expected_def)
  qed
  with len have "collector_ok cs (received s') (collector s')"
    by (simp add: s' collector_ok_def)
  then show ?thesis
    using d(1-6) by (intro pool_invI) (simp_all add: s')
qed

lemma inv_Deliver:
  assumes inv: "pool_inv cs s" and st: "step cs (Deliver k) s = Some s'"
  shows "pool_inv cs s'"
proof -
  from st obtain r i out where en: "k < length (workers s)" "workers s ! k = Sending r"
    "collector s = Collecting i out" "i < length cs"
    by (auto split: if_splits worker.splits collector.splits)
  note d = pool_invD [OF inv]
  from en have "Sending r \<in> set (workers s)" by (metis nth_mem)
  then have "worker_ok cs (sent s) (Sending r)" by (rule d(4))
  then obtain j where j: "j < sent s" "r = outcome (int j, cs ! j)" by auto
  then have idx: "Index r = int j" by simp
  from d(7) en(3) have c: "i = length (received s)" "length out = length cs"
    "\<And>k. k < length cs \<Longrightarrow> out ! k =
       (if int k \<in> Index ` set (received s) then outcome (int k, cs ! k) else zeroResult)"
    by (auto simp: collector_ok_def)
  from j(1) d(1) c(2) have jb: "j < length out" by simp
  with st en idx have s': "s' = s\<lparr>workers := (workers s)[k := Waiting],
      collector := Collecting (Suc i) (out[j := r]), received := received s @ [r]\<rparr>"
    by simp
  show ?thesis
  proof (rule pool_invI)
    show "sent s' \<le> length cs" using d(1) by (simp add: s')
    show "sent s' = length cs" if "closed s'" using that d(2) by (simp add: s')
    show "closed s'" if "Exited \<in> set (workers s')"
      using that d(3) by (auto simp: s' dest: set_update_cases)
    show "worker_ok cs (sent s') w" if "w \<in> set (workers s')" for w
    proof -
      from that have "w = Waiting \<or> w \<in> set (workers s)"
        by (auto simp: s' dest: set_update_cases)
      then show ?thesis using d(4) by (auto simp: s')
    qed
    show "\<exists>k<sent s'. r' = outcome (int k, cs ! k)" if "r' \<in> set (received s')" for r'
    proof -
      from that have "r' = r \<or> r' \<in> set (received s)" by (auto simp: s')
      then show ?thesis using j d(5) by (auto simp: s')
    qed
    have "inflight (workers s') + holds (workers s ! k) = inflight (workers s) + holds Waiting"
      using en(1) by (simp add: s' inflight_update)
    then have e: "inflight (workers s) = add_mset (Index r) (inflight ((workers s)[k := Waiting]))"
      using en(2) by (simp add: s')
    show "inflight (workers s') + mset (map Index (received s')) = mset (map int [0..<sent s'])"
      using d(6) unfolding e by (simp add: s')
    have "(out[j := r]) ! n =
        (if int n \<in> Index ` set (received s @ [r]) then outcome (int n, cs ! n) else zeroResult)"
      if n: "n < length cs" for n
    proof (cases "n = j")
      case True
      then show ?thesis using jb j(2) idx by simp
    next
      case False
      then have "(out[j := r]) ! n = out ! n" by simp
      moreover from False have "int n \<in> Index ` set (received s @ [r]) \<longleftrightarrow>
          int n \<in> Index ` set (received s)"
        using idx by auto
      ultimately show ?thesis using c(3) [OF n] by simp
    qed
    then show "collector_ok cs (received s') (collector s')"
      using c(1,2) by (simp add: s' collector_ok_def)
  qed
qed

lemma inv_step:
  assumes "pool_inv cs s" and "step cs e s = Some s'"
  shows "pool_inv cs s'"
  using assms
  by (cases e) (blast intro: inv_Dispatch inv_CloseJobs inv_Validate inv_Deliver inv_Exit inv_Return)+

lemma inv_exec:
  "pool_inv cs s \<Longrightarrow> exec cs es s = Some s' \<Longrightarrow> pool_inv cs s'"
proof (induction es arbitrary: s)
  case Nil
  then show ?case by simp
next
  case (Cons e es)
  then show ?case
    by (auto split: option.splits intro: inv_step)
qed

section \<open>Termination and freedom from deadlock\<close>

text \<open>
  Every event uses up some of the work that is left: three events for each job the producer
  still has to hand over (hand over, validate, deliver), what each worker still has to do,
  the closing of \<open>jobs\<close>, and the return of the collector. So no schedule is longer than
  the work left at the start.
\<close>

fun cost :: "worker \<Rightarrow> nat" where
  "cost Waiting = 1"
| "cost (Working j) = 3"
| "cost (Sending r) = 2"
| "cost Exited = 0"

definition remaining :: "CustomerPayload list \<Rightarrow> pool \<Rightarrow> nat" where
  "remaining cs s =
    3 * (length cs - sent s) + sum_list (map cost (workers s)) +
    (if closed s then 0 else 1) +
    (case collector s of Collecting i out \<Rightarrow> 1 | _ \<Rightarrow> 0)"

lemma cost_update:
  "k < length ws \<Longrightarrow>
    sum_list (map cost (ws[k := w])) + cost (ws ! k) = sum_list (map cost ws) + cost w"
  by (induction ws arbitrary: k) (auto simp: nth_Cons' split: nat.splits)

lemma step_remaining:
  assumes "step cs e s = Some s'"
  shows "remaining cs s' < remaining cs s"
proof (cases e)
  case (Dispatch k)
  with assms have en: "sent s < length cs" "k < length (workers s)" "workers s ! k = Waiting"
    and s': "s' = s\<lparr>sent := Suc (sent s),
                  workers := (workers s)[k := Working (int (sent s), cs ! sent s)]\<rparr>"
    by (auto split: if_splits)
  from cost_update [OF en(2), of "Working (int (sent s), cs ! sent s)"] en
  show ?thesis by (simp add: remaining_def s')
next
  case CloseJobs
  with assms show ?thesis by (auto simp: remaining_def split: if_splits)
next
  case (Validate k)
  with assms obtain j where en: "k < length (workers s)" "workers s ! k = Working j"
    and s': "s' = s\<lparr>workers := (workers s)[k := Sending (outcome j)]\<rparr>"
    by (auto split: if_splits worker.splits)
  from cost_update [OF en(1), of "Sending (outcome j)"] en
  show ?thesis by (simp add: remaining_def s')
next
  case (Deliver k)
  with assms obtain r i out where en: "k < length (workers s)" "workers s ! k = Sending r"
    "collector s = Collecting i out" and w: "workers s' = (workers s)[k := Waiting]"
    and o: "sent s' = sent s" "closed s' = closed s"
    by (auto split: if_splits worker.splits collector.splits)
  from cost_update [OF en(1), of Waiting] en w o
  show ?thesis by (simp add: remaining_def split: collector.splits)
next
  case (Exit k)
  with assms have en: "closed s" "k < length (workers s)" "workers s ! k = Waiting"
    and s': "s' = s\<lparr>workers := (workers s)[k := Exited]\<rparr>"
    by (auto split: if_splits)
  from cost_update [OF en(2), of Exited] en
  show ?thesis by (simp add: remaining_def s')
next
  case Return
  with assms show ?thesis
    by (auto simp: remaining_def split: if_splits collector.splits)
qed

lemma exec_remaining:
  "exec cs es s = Some s' \<Longrightarrow> remaining cs s' + length es \<le> remaining cs s"
proof (induction es arbitrary: s)
  case Nil
  then show ?case by simp
next
  case (Cons e es)
  then obtain s1 where 1: "step cs e s = Some s1" and 2: "exec cs es s1 = Some s'"
    by (auto split: option.splits)
  from Cons.IH [OF 2] step_remaining [OF 1] show ?case by simp
qed

lemma remaining_init: "remaining cs (init cs n) = 3 * length cs + nat n + 2"
proof -
  have "sum_list (map cost (replicate m Waiting)) = m" for m
    by (induction m) auto
  then show ?thesis by (simp add: remaining_def init_def)
qed

lemma exec_append:
  "exec cs (es @ es') s = (case exec cs es s of None \<Rightarrow> None | Some s' \<Rightarrow> exec cs es' s')"
  by (induction es arbitrary: s) (auto split: option.splits)

lemma exec_length_workers:
  "exec cs es s = Some s' \<Longrightarrow> length (workers s') = length (workers s)"
proof (induction es arbitrary: s)
  case Nil
  then show ?case by simp
next
  case (Cons e es)
  then show ?case
    by (auto split: option.splits dest: step_length_workers)
qed

lemma blocked_iff: "blocked cs s \<longleftrightarrow> (\<forall>e. step cs e s = None)"
proof
  assume "\<forall>e. step cs e s = None"
  then show "blocked cs s" by (simp add: blocked_def list_all_iff)
next
  assume b: "blocked cs s"
  have out: "step cs e s = None" if "e \<in> set (events s)" for e
    using b that by (simp add: blocked_def list_all_iff)
  show "\<forall>e. step cs e s = None"
  proof
    fix e
    show "step cs e s = None"
    proof (cases e)
      case (Dispatch k)
      show ?thesis
      proof (cases "k < length (workers s)")
        case True
        then have "e \<in> set (events s)" using Dispatch by (auto simp: events_def)
        then show ?thesis by (rule out)
      next
        case False
        then show ?thesis using Dispatch by simp
      qed
    next
      case CloseJobs
      then have "e \<in> set (events s)" by (simp add: events_def)
      then show ?thesis by (rule out)
    next
      case (Validate k)
      show ?thesis
      proof (cases "k < length (workers s)")
        case True
        then have "e \<in> set (events s)" using Validate by (auto simp: events_def)
        then show ?thesis by (rule out)
      next
        case False
        then show ?thesis using Validate by simp
      qed
    next
      case (Deliver k)
      show ?thesis
      proof (cases "k < length (workers s)")
        case True
        then have "e \<in> set (events s)" using Deliver by (auto simp: events_def)
        then show ?thesis by (rule out)
      next
        case False
        then show ?thesis using Deliver by simp
      qed
    next
      case (Exit k)
      show ?thesis
      proof (cases "k < length (workers s)")
        case True
        then have "e \<in> set (events s)" using Exit by (auto simp: events_def)
        then show ?thesis by (rule out)
      next
        case False
        then show ?thesis using Exit by simp
      qed
    next
      case Return
      then have "e \<in> set (events s)" by (simp add: events_def)
      then show ?thesis by (rule out)
    qed
  qed
qed


text \<open>
  When at least one worker runs (or there is nothing to validate), a pool in which no event
  is enabled has finished: the collector has returned the expected slice, \<open>jobs\<close> is
  closed and every worker has left its loop. A pool that has not finished can go on.
\<close>

lemma blocked_final:
  assumes inv: "pool_inv cs s" and pop: "workers s \<noteq> [] \<or> cs = []"
    and b: "blocked cs s"
  shows "collector s = Returned (expected cs)" and "closed s"
    and "\<And>w. w \<in> set (workers s) \<Longrightarrow> w = Exited"
proof -
  note d = pool_invD [OF inv]
  from b have none: "step cs e s = None" for e by (simp add: blocked_iff)
  have not_working: "workers s ! k \<noteq> Working j" if "k < length (workers s)" for k j
    using none [of "Validate k"] that by auto
  have not_panicked: "collector s \<noteq> Panicked"
    using d(7) by (auto simp: collector_ok_def)
  have not_sending: "workers s ! k \<noteq> Sending r" if k: "k < length (workers s)" for k r
  proof
    assume w: "workers s ! k = Sending r"
    with k have "Sending r \<in> set (workers s)" by (metis nth_mem)
    then have "holds (Sending r) \<subseteq># inflight (workers s)" by (rule holds_in_inflight)
    then have "inflight (workers s) \<noteq> {#}" by auto
    then have "0 < size (inflight (workers s))" by (simp add: nonempty_has_size)
    with inflight_size [OF inv] d(1) have less: "length (received s) < length cs" by simp
    show False
    proof (cases "collector s")
      case (Collecting i out)
      with d(7) have "i = length (received s)" by (simp add: collector_ok_def)
      with less Collecting w k have "step cs (Deliver k) s \<noteq> None" by simp
      with none [of "Deliver k"] show False by simp
    next
      case (Returned out)
      with d(7) less show False by (simp add: collector_ok_def)
    next
      case Panicked
      with not_panicked show False by simp
    qed
  qed
  have idle: "w = Waiting \<or> w = Exited" if "w \<in> set (workers s)" for w
  proof -
    from that obtain k where "k < length (workers s)" "workers s ! k = w"
      by (auto simp: in_set_conv_nth)
    with not_working not_sending show ?thesis by (cases w) auto
  qed
  then have "holds w = {#}" if "w \<in> set (workers s)" for w
    using that by fastforce
  then have "inflight (workers s) = {#}" by (rule inflight_empty)
  with inflight_size [OF inv] have rs: "length (received s) = sent s" by simp
  have all_sent: "sent s = length cs"
  proof (rule ccontr)
    assume "sent s \<noteq> length cs"
    with d(1) have lt: "sent s < length cs" by simp
    with d(2) have "\<not> closed s" by auto
    with d(3) have "Exited \<notin> set (workers s)" by auto
    moreover from lt pop have "0 < length (workers s)" by auto
    then have "workers s ! 0 \<in> set (workers s)" by simp
    ultimately have "workers s ! 0 = Waiting" using idle by metis
    with lt \<open>0 < length (workers s)\<close> have "step cs (Dispatch 0) s \<noteq> None" by simp
    with none [of "Dispatch 0"] show False by simp
  qed
  show cl: "closed s"
  proof (rule ccontr)
    assume "\<not> closed s"
    with all_sent have "step cs CloseJobs s \<noteq> None" by simp
    with none [of CloseJobs] show False by simp
  qed
  show "w = Exited" if "w \<in> set (workers s)" for w
  proof (rule ccontr)
    assume "w \<noteq> Exited"
    with idle [OF that] have "w = Waiting" by simp
    with that obtain k where "k < length (workers s)" "workers s ! k = Waiting"
      by (auto simp: in_set_conv_nth)
    with cl have "step cs (Exit k) s \<noteq> None" by simp
    with none [of "Exit k"] show False by simp
  qed
  show "collector s = Returned (expected cs)"
  proof (cases "collector s")
    case (Collecting i out)
    with d(7) rs all_sent have "\<not> i < length cs" by (simp add: collector_ok_def)
    with Collecting have "step cs Return s \<noteq> None" by simp
    with none [of Return] show ?thesis by simp
  next
    case (Returned out)
    with d(7) show ?thesis by (simp add: collector_ok_def)
  next
    case Panicked
    with not_panicked show ?thesis by simp
  qed
qed

lemma can_finish:
  assumes "pool_inv cs s" and "workers s \<noteq> [] \<or> cs = []"
  shows "\<exists>es s'. exec cs es s = Some s' \<and> blocked cs s' \<and>
    collector s' = Returned (expected cs)"
  using assms
proof (induction "remaining cs s" arbitrary: s rule: less_induct)
  case less
  show ?case
  proof (cases "blocked cs s")
    case True
    with less.prems have "collector s = Returned (expected cs)"
      by (intro blocked_final)
    with True have "exec cs [] s = Some s \<and> blocked cs s \<and>
        collector s = Returned (expected cs)"
      by simp
    then show ?thesis by blast
  next
    case False
    then obtain e s1 where st: "step cs e s = Some s1"
      by (auto simp: blocked_iff)
    from st have "remaining cs s1 < remaining cs s" by (rule step_remaining)
    moreover from less.prems(1) st have "pool_inv cs s1" by (rule inv_step)
    moreover from less.prems(2) step_length_workers [OF st]
    have "workers s1 \<noteq> [] \<or> cs = []" by auto
    ultimately obtain es s' where "exec cs es s1 = Some s'" "blocked cs s'"
      "collector s' = Returned (expected cs)"
      using less.hyps by blast
    with st have "exec cs (e # es) s = Some s' \<and> blocked cs s' \<and>
        collector s' = Returned (expected cs)"
      by simp
    then show ?thesis by blast
  qed
qed

section \<open>Runs of a call\<close>

text \<open>
  Facts about the states a schedule reaches from the start of a call. They hold for every
  schedule, that is, for every choice the Go scheduler can make.
\<close>

lemma run_inv: "exec cs es (init cs n) = Some s \<Longrightarrow> pool_inv cs s"
  using inv_init by (rule inv_exec)

lemma run_no_panic: "exec cs es (init cs n) = Some s \<Longrightarrow> collector s \<noteq> Panicked"
  using pool_invD(7) [OF run_inv] by (fastforce simp: collector_ok_def)

lemma run_result:
  assumes "exec cs es (init cs n) = Some s" and "collector s = Returned out"
  shows "out = expected cs"
  using pool_invD(7) [OF run_inv, OF assms(1)] assms(2) by (simp add: collector_ok_def)

lemma run_bound:
  assumes "exec cs es (init cs n) = Some s"
  shows "length es \<le> 3 * length cs + nat n + 2"
  using exec_remaining [OF assms] by (simp add: remaining_init)

lemma run_populated:
  assumes "exec cs es (init cs n) = Some s" and "1 \<le> n \<or> cs = []"
  shows "workers s \<noteq> [] \<or> cs = []"
proof -
  from exec_length_workers [OF assms(1)] have "length (workers s) = nat n"
    by (simp add: init_def)
  with assms(2) show ?thesis by auto
qed

lemma run_blocked:
  assumes "exec cs es (init cs n) = Some s" and "1 \<le> n \<or> cs = []" and "blocked cs s"
  shows "collector s = Returned (expected cs)"
  using run_inv [OF assms(1)] run_populated [OF assms(1,2)] assms(3)
  by (rule blocked_final)

lemma run_extends:
  assumes "exec cs es (init cs n) = Some s" and "1 \<le> n \<or> cs = []"
  shows "\<exists>es' s'. exec cs (es @ es') (init cs n) = Some s' \<and> blocked cs s' \<and>
    collector s' = Returned (expected cs)"
proof -
  from can_finish [OF run_inv [OF assms(1)] run_populated [OF assms]]
  obtain es' s' where "exec cs es' s = Some s'" "blocked cs s'"
    "collector s' = Returned (expected cs)"
    by blast
  with assms(1) have "exec cs (es @ es') (init cs n) = Some s' \<and> blocked cs s' \<and>
      collector s' = Returned (expected cs)"
    by (simp add: exec_append)
  then show ?thesis by blast
qed

lemma handlerWorkers_range: "1 \<le> handlerWorkers requested \<and> handlerWorkers requested \<le> 20"
  by (simp add: handlerWorkers_def Let_def)

lemma length_expected: "length (expected cs) = length cs"
  by (simp add: expected_def)

lemma nth_expected: "i < length cs \<Longrightarrow> expected cs ! i = outcome (int i, cs ! i)"
  by (simp add: expected_def)

section \<open>Sample inputs\<close>

text \<open>
  A batch of two records and two schedules for it: one for five workers in which the second
  record is validated and delivered first, and one for a single worker in which the
  collector returns before the producer has closed \<open>jobs\<close>.
\<close>

definition demo_batch :: "CustomerPayload list" where
  "demo_batch =
    [\<lparr>FullName = ''Ani'', Email = '' ani@mail.id ''\<rparr>,
     \<lparr>FullName = [], Email = ''a@b.com''\<rparr>]"

definition demo_schedule :: "event list" where
  "demo_schedule =
    [Dispatch 0, Dispatch 1, Validate 1, Deliver 1, Validate 0, Deliver 0, CloseJobs,
     Exit 1, Exit 0, Exit 2, Exit 3, Exit 4, Return]"

definition demo_schedule_1 :: "event list" where
  "demo_schedule_1 =
    [Dispatch 0, Validate 0, Deliver 0, Dispatch 0, Validate 0, Deliver 0, Return,
     CloseJobs, Exit 0]"

section \<open>Properties of the batch call\<close>

text \<open>
  C1. The handler calls the pool with \<open>handlerWorkers requested\<close> workers. For every batch
  and every requested count: a schedule has at most \<open>3 * N + workers + 2\<close> events, it can
  always be continued to a state where nothing is left to run and the call has returned, and
  when nothing is left to run the call has returned; so under every scheduling the call
  returns. Whatever worker count the pool gets, a slice it returns has the length \<open>N\<close> of
  the batch and carries index \<open>i\<close> at every position \<open>i < N\<close>.
\<close>

theorem validateBatch_length_and_order:
  "(exec customers es (init customers (handlerWorkers requested)) = Some s \<longrightarrow>
      length es \<le> 3 * length customers + nat (handlerWorkers requested) + 2 \<and>
      (\<exists>es' s'. exec customers (es @ es') (init customers (handlerWorkers requested)) = Some s' \<and>
         blocked customers s' \<and> collector s' = Returned (expected customers)) \<and>
      (blocked customers s \<longrightarrow> collector s = Returned (expected customers))) \<and>
   (exec customers es (init customers n) = Some s \<and> collector s = Returned out \<longrightarrow>
      length out = length customers \<and> (\<forall>i<length customers. Index (out ! i) = int i))"
proof (intro conjI impI)
  assume run: "exec customers es (init customers (handlerWorkers requested)) = Some s"
  have pop: "1 \<le> handlerWorkers requested \<or> customers = []"
    using handlerWorkers_range by simp
  show "length es \<le> 3 * length customers + nat (handlerWorkers requested) + 2"
    using run by (rule run_bound)
  show "\<exists>es' s'. exec customers (es @ es') (init customers (handlerWorkers requested)) = Some s' \<and>
      blocked customers s' \<and> collector s' = Returned (expected customers)"
    using run pop by (rule run_extends)
  show "collector s = Returned (expected customers)" if "blocked customers s"
    using run pop that by (rule run_blocked)
next
  assume "exec customers es (init customers n) = Some s \<and> collector s = Returned out"
  then have out: "out = expected customers" by (auto dest: run_result)
  show "length out = length customers" by (simp add: out length_expected)
  show "\<forall>i<length customers. Index (out ! i) = int i"
    by (simp add: out nth_expected)
qed

theorem validateBatch_length_and_order_witness:
  "(\<exists>s. exec demo_batch demo_schedule (init demo_batch (handlerWorkers 0)) = Some s \<and>
      blocked demo_batch s \<and> collector s = Returned (expected demo_batch)) \<and>
   length demo_schedule \<le> 3 * length demo_batch + nat (handlerWorkers 0) + 2 \<and>
   length (expected demo_batch) = length demo_batch \<and>
   Index (expected demo_batch ! 0) = 0 \<and> Index (expected demo_batch ! 1) = 1"
proof -
  have "map_option (\<lambda>s. (blocked demo_batch s, collector s))
      (exec demo_batch demo_schedule (init demo_batch (handlerWorkers 0))) =
      Some (True, Returned (expected demo_batch))"
    by code_simp
  then obtain s where s: "exec demo_batch demo_schedule (init demo_batch (handlerWorkers 0)) = Some s"
    "blocked demo_batch s" "collector s = Returned (expected demo_batch)"
    unfolding map_option_eq_Some by blast
  have len: "length demo_batch = 2" by (simp add: demo_batch_def)
  from validateBatch_length_and_order
    [of demo_batch demo_schedule 0 s "handlerWorkers 0" "expected demo_batch"] s len
  show ?thesis by auto
qed

section \<open>Properties of the validator\<close>

lemma Contains_single: "Contains s [a] = (a \<in> set s)"
  by (induction s) auto

lemma TrimLeftSpace_length: "length (TrimLeftSpace s) \<le> length s"
proof (induction s rule: TrimLeftSpace.induct)
  case (1 s)
  show ?case
  proof (cases "leadingSpace s = 0")
    case True
    then show ?thesis by (simp add: TrimLeftSpace.simps [of s])
  next
    case False
    with 1 have "length (TrimLeftSpace (drop (leadingSpace s) s)) \<le> length s - leadingSpace s"
      by simp
    with False show ?thesis by (simp add: TrimLeftSpace.simps [of s])
  qed
qed

lemma TrimRightSpace_length: "length (TrimRightSpace s) \<le> length s"
proof (induction s rule: TrimRightSpace.induct)
  case (1 s)
  show ?case
  proof (cases "trailingSpace s = 0")
    case True
    then show ?thesis by (simp add: TrimRightSpace.simps [of s])
  next
    case False
    with 1 have "length (TrimRightSpace (take (length s - trailingSpace s) s)) \<le>
        length s - trailingSpace s"
      by simp
    with False show ?thesis by (simp add: TrimRightSpace.simps [of s])
  qed
qed

lemma TrimLeftSpace_shorter:
  assumes "leadingSpace s \<noteq> 0"
  shows "length (TrimLeftSpace s) < length s"
proof -
  have "length (TrimLeftSpace (drop (leadingSpace s) s)) \<le> length s - leadingSpace s"
    using TrimLeftSpace_length [of "drop (leadingSpace s) s"] by simp
  moreover have "leadingSpace s \<le> length s" by (rule leadingSpace_le)
  ultimately show ?thesis using assms by (simp add: TrimLeftSpace.simps [of s])
qed

lemma TrimRightSpace_shorter:
  assumes "trailingSpace s \<noteq> 0"
  shows "length (TrimRightSpace s) < length s"
proof -
  have "length (TrimRightSpace (take (length s - trailingSpace s) s)) \<le>
      length s - trailingSpace s"
    using TrimRightSpace_length [of "take (length s - trailingSpace s) s"] by simp
  moreover have "trailingSpace s \<le> length s" by (rule trailingSpace_le)
  ultimately show ?thesis using assms by (simp add: TrimRightSpace.simps [of s])
qed

lemma TrimSpace_shorter:
  assumes "leadingSpace s \<noteq> 0 \<or> trailingSpace s \<noteq> 0"
  shows "length (TrimSpace s) < length s"
proof (cases "leadingSpace s = 0")
  case True
  then have "TrimLeftSpace s = s" by (simp add: TrimLeftSpace.simps [of s])
  moreover from True assms have "trailingSpace s \<noteq> 0" by simp
  ultimately show ?thesis by (simp add: TrimSpace_def TrimRightSpace_shorter)
next
  case False
  then have "length (TrimLeftSpace s) < length s" by (rule TrimLeftSpace_shorter)
  moreover have "length (TrimRightSpace (TrimLeftSpace s)) \<le> length (TrimLeftSpace s)"
    by (rule TrimRightSpace_length)
  ultimately show ?thesis by (simp add: TrimSpace_def)
qed

lemma validateCustomer_message: "(snd (validateCustomer c) = []) = fst (validateCustomer c)"
  by (simp add: validateCustomer_def Let_def)

subsection \<open>What trimmed and case-insensitive mean\<close>

text \<open>
  The notions the rules of the validator are stated with, defined without the functions of
  the code. A string is blank when it is a sequence of white-space runes. \<open>t\<close> is the
  trimmed form of \<open>s\<close> when \<open>s\<close> is \<open>t\<close> between two blank strings and \<open>t\<close> itself neither
  starts nor ends with a white-space rune.
\<close>

inductive blank :: "string \<Rightarrow> bool" where
  blank_Nil: "blank []"
| blank_Cons: "sp \<in> set spaceRunes \<Longrightarrow> blank l \<Longrightarrow> blank (sp @ l)"

definition startsWithSpace :: "string \<Rightarrow> bool" where
  "startsWithSpace s = (\<exists>sp\<in>set spaceRunes. \<exists>rest. s = sp @ rest)"

definition endsWithSpace :: "string \<Rightarrow> bool" where
  "endsWithSpace s = (\<exists>sp\<in>set spaceRunes. \<exists>front. s = front @ sp)"

definition trimmed_of :: "string \<Rightarrow> string \<Rightarrow> bool" where
  "trimmed_of s t =
    (\<exists>l r. s = l @ t @ r \<and> blank l \<and> blank r \<and> \<not> startsWithSpace t \<and> \<not> endsWithSpace t)"

text \<open>
  Two bytes are the same letter up to case when they agree after every upper-case letter
  of the alphabet is replaced by its lower-case one; a string ends with a suffix up to case
  when its last bytes are, one by one, the same letters as the suffix. Characters are
  counted as the bytes that do not continue a UTF-8 sequence.
\<close>

definition letterPairs :: "(char \<times> char) list" where
  "letterPairs = zip ''ABCDEFGHIJKLMNOPQRSTUVWXYZ'' ''abcdefghijklmnopqrstuvwxyz''"

definition foldLetter :: "char \<Rightarrow> char" where
  "foldLetter a = (case map_of letterPairs a of None \<Rightarrow> a | Some l \<Rightarrow> l)"

definition sameLetter :: "char \<Rightarrow> char \<Rightarrow> bool" where
  "sameLetter a b = (foldLetter a = foldLetter b)"

definition endsWithFold :: "string \<Rightarrow> string \<Rightarrow> bool" where
  "endsWithFold s suffix =
    (length suffix \<le> length s \<and>
     list_all2 sameLetter (drop (length s - length suffix) s) suffix)"

definition runeCount :: "string \<Rightarrow> nat" where
  "runeCount s =
    length (filter (\<lambda>b. \<not> ((128::nat) \<le> of_char b \<and> of_char b < (192::nat))) s)"

text \<open>
  The ordered rules on a trimmed name and a trimmed email, each a test for failure with
  its message, and the outcome of a rule list: that of the first rule that fails, or valid
  with no message when none does. \<open>rules_on_given_email\<close> is the reading in which rules
  3 to 5 look at the email field as it was sent and rule 4 counts characters.
\<close>

definition first_failing :: "(bool \<times> string) list \<Rightarrow> bool \<times> string" where
  "first_failing rules =
    (case find fst rules of
       None \<Rightarrow> (True, [])
     | Some r \<Rightarrow> (False, snd r))"

definition spec_rules :: "string \<Rightarrow> string \<Rightarrow> (bool \<times> string) list" where
  "spec_rules name email =
    [(name = [], ''full_name is required''),
     (email = [], ''email is required''),
     (CHR ''@'' \<notin> set email, ''email must contain '@'' @ [CHR 0x27]),
     (150 < length email, ''email too long''),
     (endsWithFold email ''@example.com'', ''example.com emails are not allowed'')]"

definition rules_on_given_email :: "string \<Rightarrow> string \<Rightarrow> string \<Rightarrow> (bool \<times> string) list" where
  "rules_on_given_email name email raw =
    [(name = [], ''full_name is required''),
     (email = [], ''email is required''),
     (CHR ''@'' \<notin> set raw, ''email must contain '@'' @ [CHR 0x27]),
     (150 < runeCount raw, ''email too long''),
     (endsWithFold raw ''@example.com'', ''example.com emails are not allowed'')]"

text \<open>
  \<open>TrimSpace\<close> computes the trimmed form, and the trimmed form is unique. The proof rests
  on three facts of the table of white-space runes: no encoding is a prefix of another one,
  none is a suffix of another one, and no encoding starts with a byte that occurs inside one.
\<close>

lemma spaceRunes_prefix_free:
  "\<forall>a\<in>set spaceRunes. \<forall>b\<in>set spaceRunes. take (length a) b = a \<longrightarrow> a = b"
  by code_simp

lemma spaceRunes_suffix_free:
  "\<forall>a\<in>set spaceRunes. \<forall>b\<in>set spaceRunes. drop (length b - length a) b = a \<longrightarrow> a = b"
  by code_simp

lemma spaceRunes_tail_no_head:
  "\<forall>a\<in>set spaceRunes. \<forall>b\<in>set spaceRunes. \<forall>k\<in>set [1..<length a]. a ! k \<noteq> hd b"
  by code_simp

lemma spaceRunes_same_start:
  assumes a: "a \<in> set spaceRunes" and b: "b \<in> set spaceRunes" and eq: "a @ x = b @ y"
  shows "a = b"
proof -
  from eq obtain us where "a = b @ us \<and> us @ x = y \<or> a @ us = b \<and> x = us @ y"
    by (auto simp: append_eq_append_conv2)
  then show ?thesis
  proof
    assume "a = b @ us \<and> us @ x = y"
    then have "take (length b) a = b" by simp
    with a b spaceRunes_prefix_free show ?thesis by blast
  next
    assume "a @ us = b \<and> x = us @ y"
    then have "take (length a) b = a" by auto
    with a b spaceRunes_prefix_free show ?thesis by blast
  qed
qed

lemma spaceRunes_same_end:
  assumes a: "a \<in> set spaceRunes" and b: "b \<in> set spaceRunes" and eq: "x @ a = y @ b"
  shows "a = b"
proof -
  from eq obtain us where "x = y @ us \<and> us @ a = b \<or> x @ us = y \<and> a = us @ b"
    by (auto simp: append_eq_append_conv2)
  then show ?thesis
  proof
    assume "x = y @ us \<and> us @ a = b"
    then have "drop (length b - length a) b = a" by auto
    with a b spaceRunes_suffix_free show ?thesis by blast
  next
    assume "x @ us = y \<and> a = us @ b"
    then have "drop (length a - length b) a = b" by auto
    with a b spaceRunes_suffix_free show ?thesis by blast
  qed
qed

lemma leadingSpace_found:
  assumes "leadingSpace s \<noteq> 0"
  shows "take (leadingSpace s) s \<in> set spaceRunes"
proof -
  from assms obtain q where f: "find (\<lambda>sp. take (length sp) s = sp) spaceRunes = Some q"
    by (auto simp: leadingSpace_def split: option.splits)
  then have "q \<in> set spaceRunes" "take (length q) s = q"
    by (auto simp: find_Some_iff)
  with f show ?thesis by (simp add: leadingSpace_def)
qed

lemma trailingSpace_found:
  assumes "trailingSpace s \<noteq> 0"
  shows "drop (length s - trailingSpace s) s \<in> set spaceRunes"
proof -
  from assms obtain q where f: "find (\<lambda>sp. length sp \<le> length s \<and>
      drop (length s - length sp) s = sp) spaceRunes = Some q"
    by (auto simp: trailingSpace_def split: option.splits)
  then have "q \<in> set spaceRunes" "drop (length s - length q) s = q"
    by (auto simp: find_Some_iff)
  with f show ?thesis by (simp add: trailingSpace_def)
qed

lemma leadingSpace_rune:
  assumes sp: "sp \<in> set spaceRunes"
  shows "leadingSpace (sp @ x) = length sp"
proof -
  have "take (length sp) (sp @ x) = sp" by simp
  with sp have "find (\<lambda>q. take (length q) (sp @ x) = q) spaceRunes \<noteq> None"
    unfolding find_None_iff by blast
  then have "leadingSpace (sp @ x) \<noteq> 0"
    using spaceRunes_bounds
    by (auto simp: leadingSpace_def find_Some_iff split: option.splits)
  then have q: "take (leadingSpace (sp @ x)) (sp @ x) \<in> set spaceRunes"
    by (rule leadingSpace_found)
  have "take (leadingSpace (sp @ x)) (sp @ x) @ drop (leadingSpace (sp @ x)) (sp @ x) = sp @ x"
    by (rule append_take_drop_id)
  with q sp have "take (leadingSpace (sp @ x)) (sp @ x) = sp"
    by (rule spaceRunes_same_start)
  then have "length (take (leadingSpace (sp @ x)) (sp @ x)) = length sp" by simp
  moreover have "leadingSpace (sp @ x) \<le> length (sp @ x)" by (rule leadingSpace_le)
  ultimately show ?thesis by simp
qed

lemma trailingSpace_rune:
  assumes sp: "sp \<in> set spaceRunes"
  shows "trailingSpace (x @ sp) = length sp"
proof -
  have "length sp \<le> length (x @ sp) \<and> drop (length (x @ sp) - length sp) (x @ sp) = sp"
    by simp
  with sp have "find (\<lambda>q. length q \<le> length (x @ sp) \<and>
      drop (length (x @ sp) - length q) (x @ sp) = q) spaceRunes \<noteq> None"
    unfolding find_None_iff by blast
  then have n: "trailingSpace (x @ sp) \<noteq> 0"
    using spaceRunes_bounds
    by (auto simp: trailingSpace_def find_Some_iff split: option.splits)
  then have q: "drop (length (x @ sp) - trailingSpace (x @ sp)) (x @ sp) \<in> set spaceRunes"
    by (rule trailingSpace_found)
  have "take (length (x @ sp) - trailingSpace (x @ sp)) (x @ sp) @
      drop (length (x @ sp) - trailingSpace (x @ sp)) (x @ sp) = x @ sp"
    by (rule append_take_drop_id)
  with q sp have "drop (length (x @ sp) - trailingSpace (x @ sp)) (x @ sp) = sp"
    by (rule spaceRunes_same_end)
  then have "length (drop (length (x @ sp) - trailingSpace (x @ sp)) (x @ sp)) = length sp"
    by simp
  moreover have "trailingSpace (x @ sp) \<le> length (x @ sp)" by (rule trailingSpace_le)
  ultimately show ?thesis by simp
qed

lemma leadingSpace_iff: "(leadingSpace s = 0) = (\<not> startsWithSpace s)"
proof
  assume z: "leadingSpace s = 0"
  show "\<not> startsWithSpace s"
  proof
    assume "startsWithSpace s"
    then obtain sp rest where "sp \<in> set spaceRunes" "s = sp @ rest"
      by (auto simp: startsWithSpace_def)
    then have "leadingSpace s = length sp" "0 < length sp"
      using spaceRunes_bounds by (simp_all add: leadingSpace_rune)
    with z show False by simp
  qed
next
  assume n: "\<not> startsWithSpace s"
  show "leadingSpace s = 0"
  proof (rule ccontr)
    assume "leadingSpace s \<noteq> 0"
    then have "take (leadingSpace s) s \<in> set spaceRunes" by (rule leadingSpace_found)
    moreover have "s = take (leadingSpace s) s @ drop (leadingSpace s) s" by simp
    ultimately have "startsWithSpace s" unfolding startsWithSpace_def by blast
    with n show False by simp
  qed
qed

lemma trailingSpace_iff: "(trailingSpace s = 0) = (\<not> endsWithSpace s)"
proof
  assume z: "trailingSpace s = 0"
  show "\<not> endsWithSpace s"
  proof
    assume "endsWithSpace s"
    then obtain sp front where "sp \<in> set spaceRunes" "s = front @ sp"
      by (auto simp: endsWithSpace_def)
    then have "trailingSpace s = length sp" "0 < length sp"
      using spaceRunes_bounds by (simp_all add: trailingSpace_rune)
    with z show False by simp
  qed
next
  assume n: "\<not> endsWithSpace s"
  show "trailingSpace s = 0"
  proof (rule ccontr)
    assume "trailingSpace s \<noteq> 0"
    then have "drop (length s - trailingSpace s) s \<in> set spaceRunes"
      by (rule trailingSpace_found)
    moreover have "s = take (length s - trailingSpace s) s @ drop (length s - trailingSpace s) s"
      by simp
    ultimately have "endsWithSpace s" unfolding endsWithSpace_def by blast
    with n show False by simp
  qed
qed

lemma blank_append: "blank a \<Longrightarrow> blank b \<Longrightarrow> blank (a @ b)"
proof (induction rule: blank.induct)
  case blank_Nil
  then show ?case by simp
next
  case (blank_Cons sp l)
  from blank_Cons.IH [OF blank_Cons.prems] have "blank (l @ b)" .
  with blank_Cons.hyps(1) have "blank (sp @ (l @ b))" by (rule blank.blank_Cons)
  then show ?case by simp
qed

lemma blank_rune: "sp \<in> set spaceRunes \<Longrightarrow> blank sp"
  using blank.blank_Cons [of sp "[]"] by (simp add: blank_Nil)

lemma blank_last:
  "blank r \<Longrightarrow> r = [] \<or> (\<exists>r' sp. r = r' @ sp \<and> sp \<in> set spaceRunes \<and> blank r')"
proof (induction rule: blank.induct)
  case blank_Nil
  show ?case by simp
next
  case (blank_Cons sp l)
  from blank_Cons.IH show ?case
  proof
    assume "l = []"
    with blank_Cons.hyps(1) have "sp @ l = [] @ sp \<and> sp \<in> set spaceRunes \<and> blank []"
      by (simp add: blank_Nil)
    then show ?thesis by blast
  next
    assume "\<exists>r' q. l = r' @ q \<and> q \<in> set spaceRunes \<and> blank r'"
    then obtain r' q where l: "l = r' @ q" "q \<in> set spaceRunes" "blank r'" by blast
    from blank_Cons.hyps(1) l(3) have "blank (sp @ r')" by (rule blank.blank_Cons)
    with l have "sp @ l = (sp @ r') @ q \<and> q \<in> set spaceRunes \<and> blank (sp @ r')" by simp
    then show ?thesis by blast
  qed
qed

lemma TrimLeftSpace_rune:
  assumes "sp \<in> set spaceRunes"
  shows "TrimLeftSpace (sp @ y) = TrimLeftSpace y"
proof -
  have "leadingSpace (sp @ y) = length sp" using assms by (rule leadingSpace_rune)
  moreover have "0 < length sp" using assms spaceRunes_bounds by blast
  ultimately show ?thesis by (subst TrimLeftSpace.simps) simp
qed

lemma TrimRightSpace_rune:
  assumes "sp \<in> set spaceRunes"
  shows "TrimRightSpace (y @ sp) = TrimRightSpace y"
proof -
  have "trailingSpace (y @ sp) = length sp" using assms by (rule trailingSpace_rune)
  moreover have "0 < length sp" using assms spaceRunes_bounds by blast
  ultimately show ?thesis by (subst TrimRightSpace.simps) simp
qed

lemma TrimLeftSpace_blank:
  "blank l \<Longrightarrow> \<not> startsWithSpace u \<Longrightarrow> TrimLeftSpace (l @ u) = u"
proof (induction rule: blank.induct)
  case blank_Nil
  then have "leadingSpace u = 0" by (simp add: leadingSpace_iff)
  then show ?case by (simp add: TrimLeftSpace.simps [of u])
next
  case (blank_Cons sp l)
  have "TrimLeftSpace (sp @ (l @ u)) = TrimLeftSpace (l @ u)"
    using blank_Cons.hyps(1) by (rule TrimLeftSpace_rune)
  also have "\<dots> = u" using blank_Cons.prems by (rule blank_Cons.IH)
  finally show ?case by simp
qed

lemma TrimRightSpace_blank:
  "blank r \<Longrightarrow> \<not> endsWithSpace t \<Longrightarrow> TrimRightSpace (t @ r) = t"
proof (induction "length r" arbitrary: r rule: less_induct)
  case less
  from blank_last [OF less.prems(1)] show ?case
  proof
    assume "r = []"
    moreover from less.prems(2) have "trailingSpace t = 0" by (simp add: trailingSpace_iff)
    ultimately show ?thesis by (simp add: TrimRightSpace.simps [of t])
  next
    assume "\<exists>r' sp. r = r' @ sp \<and> sp \<in> set spaceRunes \<and> blank r'"
    then obtain r' sp where r: "r = r' @ sp" "sp \<in> set spaceRunes" "blank r'" by blast
    have pos: "0 < length sp" using r(2) spaceRunes_bounds by blast
    have "TrimRightSpace ((t @ r') @ sp) = TrimRightSpace (t @ r')"
      using r(2) by (rule TrimRightSpace_rune)
    also from pos r(1) have "length r' < length r" by simp
    then have "TrimRightSpace (t @ r') = t"
      using r(3) less.prems(2) by (rule less.hyps)
    finally show ?thesis by (simp add: r(1))
  qed
qed

lemma TrimLeftSpace_splits:
  "(\<exists>l. s = l @ TrimLeftSpace s \<and> blank l) \<and> \<not> startsWithSpace (TrimLeftSpace s)"
proof (induction s rule: TrimLeftSpace.induct)
  case (1 s)
  show ?case
  proof (cases "leadingSpace s = 0")
    case True
    then have "TrimLeftSpace s = s" by (simp add: TrimLeftSpace.simps [of s])
    moreover from True have "\<not> startsWithSpace s" by (simp add: leadingSpace_iff)
    moreover have "s = [] @ s \<and> blank []" by (simp add: blank_Nil)
    ultimately show ?thesis by metis
  next
    case False
    then have t: "TrimLeftSpace s = TrimLeftSpace (drop (leadingSpace s) s)"
      by (simp add: TrimLeftSpace.simps [of s])
    from 1 False obtain l where l: "drop (leadingSpace s) s = l @ TrimLeftSpace s" "blank l"
      and n: "\<not> startsWithSpace (TrimLeftSpace s)"
      unfolding t by blast
    from False have "take (leadingSpace s) s \<in> set spaceRunes" by (rule leadingSpace_found)
    then have "blank (take (leadingSpace s) s @ l)" using l(2) by (rule blank_Cons)
    moreover have "s = (take (leadingSpace s) s @ l) @ TrimLeftSpace s"
      using l(1) by (metis append.assoc append_take_drop_id)
    ultimately show ?thesis using n by blast
  qed
qed

lemma TrimRightSpace_splits:
  "(\<exists>r. s = TrimRightSpace s @ r \<and> blank r) \<and> \<not> endsWithSpace (TrimRightSpace s)"
proof (induction s rule: TrimRightSpace.induct)
  case (1 s)
  show ?case
  proof (cases "trailingSpace s = 0")
    case True
    then have "TrimRightSpace s = s" by (simp add: TrimRightSpace.simps [of s])
    moreover from True have "\<not> endsWithSpace s" by (simp add: trailingSpace_iff)
    moreover have "s = s @ [] \<and> blank []" by (simp add: blank_Nil)
    ultimately show ?thesis by metis
  next
    case False
    then have t: "TrimRightSpace s = TrimRightSpace (take (length s - trailingSpace s) s)"
      by (simp add: TrimRightSpace.simps [of s])
    from 1 False obtain r where r: "take (length s - trailingSpace s) s = TrimRightSpace s @ r"
      "blank r" and n: "\<not> endsWithSpace (TrimRightSpace s)"
      unfolding t by blast
    from False have "drop (length s - trailingSpace s) s \<in> set spaceRunes"
      by (rule trailingSpace_found)
    then have "blank (drop (length s - trailingSpace s) s)" by (rule blank_rune)
    with r(2) have "blank (r @ drop (length s - trailingSpace s) s)" by (rule blank_append)
    moreover have "s = TrimRightSpace s @ (r @ drop (length s - trailingSpace s) s)"
      using r(1) by (metis append.assoc append_take_drop_id)
    ultimately show ?thesis using n by blast
  qed
qed

lemma startsWithSpace_append:
  assumes n: "\<not> startsWithSpace t" and t: "t \<noteq> []" and r: "blank r"
  shows "\<not> startsWithSpace (t @ r)"
proof
  assume "startsWithSpace (t @ r)"
  then obtain sp rest where sp: "sp \<in> set spaceRunes" and eq: "t @ r = sp @ rest"
    by (auto simp: startsWithSpace_def)
  from eq obtain us where "t = sp @ us \<and> us @ r = rest \<or> t @ us = sp \<and> r = us @ rest"
    by (auto simp: append_eq_append_conv2)
  then show False
  proof
    assume "t = sp @ us \<and> us @ r = rest"
    with sp have "startsWithSpace t" unfolding startsWithSpace_def by blast
    with n show False by simp
  next
    assume c: "t @ us = sp \<and> r = us @ rest"
    show False
    proof (cases "us = []")
      case True
      with c have "t = sp @ []" by simp
      with sp have "startsWithSpace t" unfolding startsWithSpace_def by blast
      with n show False by simp
    next
      case False
      with c have rne: "r \<noteq> []" by simp
      from r rne have "\<exists>q l. r = q @ l \<and> q \<in> set spaceRunes"
        by cases auto
      then obtain q l where q: "r = q @ l" "q \<in> set spaceRunes" by blast
      have "q \<noteq> []" using q(2) spaceRunes_bounds by fastforce
      with q(1) have "hd r = hd q" by simp
      moreover from c False have "hd r = hd us" by simp
      moreover from c False have "sp ! length t = hd us"
        by (metis hd_conv_nth nth_append_length_plus add.right_neutral)
      ultimately have same: "sp ! length t = hd q" by simp
      from c False t have "length t \<in> set [1..<length sp]"
        by (auto simp: Suc_le_eq)
      with sp q(2) spaceRunes_tail_no_head have "sp ! length t \<noteq> hd q" by blast
      with same show False by simp
    qed
  qed
qed

lemma TrimSpace_trimmed: "trimmed_of s (TrimSpace s)"
proof -
  from TrimLeftSpace_splits [of s] obtain l where l: "s = l @ TrimLeftSpace s" "blank l"
    and nl: "\<not> startsWithSpace (TrimLeftSpace s)"
    by blast
  from TrimRightSpace_splits [of "TrimLeftSpace s"] obtain r
    where r: "TrimLeftSpace s = TrimSpace s @ r" "blank r"
      and nr: "\<not> endsWithSpace (TrimSpace s)"
    unfolding TrimSpace_def by blast
  have "\<not> startsWithSpace (TrimSpace s)"
  proof
    assume "startsWithSpace (TrimSpace s)"
    then obtain sp rest where "sp \<in> set spaceRunes" "TrimSpace s = sp @ rest"
      by (auto simp: startsWithSpace_def)
    with r(1) have "sp \<in> set spaceRunes \<and> TrimLeftSpace s = sp @ (rest @ r)" by simp
    then have "startsWithSpace (TrimLeftSpace s)" unfolding startsWithSpace_def by blast
    with nl show False by simp
  qed
  moreover from l(1) r(1) have "s = l @ TrimSpace s @ r" by simp
  ultimately show ?thesis
    unfolding trimmed_of_def using l(2) r(2) nr by blast
qed

lemma trimmed_unique:
  assumes "trimmed_of s t"
  shows "TrimSpace s = t"
proof -
  from assms obtain l r where s: "s = l @ t @ r" and l: "blank l" and r: "blank r"
    and ns: "\<not> startsWithSpace t" and ne: "\<not> endsWithSpace t"
    unfolding trimmed_of_def by blast
  show ?thesis
  proof (cases "t = []")
    case True
    have "blank (l @ r)" using l r by (rule blank_append)
    then have "TrimLeftSpace ((l @ r) @ []) = []"
      using ns True by (intro TrimLeftSpace_blank) simp_all
    moreover have "trailingSpace [] = 0" by (simp add: trailingSpace_def spaceRunes_def)
    then have "TrimRightSpace [] = []" by (simp add: TrimRightSpace.simps [of "[]"])
    ultimately show ?thesis using True s by (simp add: TrimSpace_def)
  next
    case False
    with ns r have "\<not> startsWithSpace (t @ r)" by (intro startsWithSpace_append)
    with l have "TrimLeftSpace (l @ (t @ r)) = t @ r" by (rule TrimLeftSpace_blank)
    moreover from r ne have "TrimRightSpace (t @ r) = t" by (rule TrimRightSpace_blank)
    ultimately show ?thesis using s by (simp add: TrimSpace_def)
  qed
qed

text \<open>
  Lower-casing by arithmetic on the byte, as the code does it, agrees with the alphabet
  table on every byte, so the suffix test of the code is the test up to case.
\<close>

lemma toLowerByte_foldLetter: "\<forall>a. toLowerByte a = foldLetter a"
  by code_simp

lemma foldLetter_example: "list_all (\<lambda>b. foldLetter b = b) ''@example.com''"
  by code_simp

lemma ToLower_eq_example:
  "(ToLower xs = ''@example.com'') = list_all2 sameLetter xs ''@example.com''"
proof -
  have "(ToLower xs = ''@example.com'') =
      list_all2 (\<lambda>a b. toLowerByte a = b) xs ''@example.com''"
    unfolding ToLower_def by (simp add: list_all2_eq list_all2_map1)
  also have "\<dots> = list_all2 sameLetter xs ''@example.com''"
  proof (rule list.rel_cong)
    fix a b assume "b \<in> set ''@example.com''"
    with foldLetter_example have "foldLetter b = b"
      unfolding list_all_iff by blast
    with toLowerByte_foldLetter show "(toLowerByte a = b) = sameLetter a b"
      by (simp add: sameLetter_def)
  qed simp_all
  finally show ?thesis .
qed

lemma HasSuffix_ToLower:
  "HasSuffix (ToLower s) ''@example.com'' = endsWithFold s ''@example.com''"
proof -
  have "drop n (ToLower s) = ToLower (drop n s)" for n
    by (simp add: ToLower_def drop_map)
  moreover have "length (ToLower s) = length s" by (simp add: ToLower_def)
  ultimately show ?thesis
    unfolding HasSuffix_def endsWithFold_def by (simp only: ToLower_eq_example)
qed

lemma validateCustomer_spec_rules:
  "validateCustomer c =
    first_failing (spec_rules (TrimSpace (FullName c)) (TrimSpace (Email c)))"
  by (simp add: validateCustomer_def first_failing_def spec_rules_def Let_def
      Contains_single HasSuffix_ToLower)

subsection \<open>The rules of the validator\<close>

text \<open>
  C3, as the code has it. Every full name and every email has a trimmed form, and for the
  trimmed forms \<open>name\<close> and \<open>email\<close> of a record the validator returns the outcome of the
  first failing rule among: \<open>name\<close> empty, \<open>email\<close> empty, \<open>email\<close> without \<open>@\<close>, \<open>email\<close>
  longer than 150 bytes, \<open>email\<close> ending with \<open>@example.com\<close> up to case; when no rule
  fails the record is valid with the empty message. Rules 3 to 5 look at the trimmed email.
\<close>

theorem validateCustomer_first_failing_rule:
  "(\<exists>name email. trimmed_of (FullName c) name \<and> trimmed_of (Email c) email) \<and>
   (\<forall>name email. trimmed_of (FullName c) name \<and> trimmed_of (Email c) email \<longrightarrow>
      validateCustomer c = first_failing (spec_rules name email))"
proof (intro conjI allI impI)
  have "trimmed_of (FullName c) (TrimSpace (FullName c)) \<and>
      trimmed_of (Email c) (TrimSpace (Email c))"
    by (simp add: TrimSpace_trimmed)
  then show "\<exists>name email. trimmed_of (FullName c) name \<and> trimmed_of (Email c) email"
    by blast
next
  fix name email
  assume "trimmed_of (FullName c) name \<and> trimmed_of (Email c) email"
  then have "TrimSpace (FullName c) = name" "TrimSpace (Email c) = email"
    by (simp_all add: trimmed_unique)
  then show "validateCustomer c = first_failing (spec_rules name email)"
    using validateCustomer_spec_rules [of c] by simp
qed

definition shouting_record :: CustomerPayload where
  "shouting_record = \<lparr>FullName = '' Ani'', Email = ''x@EXAMPLE.com ''\<rparr>"

theorem validateCustomer_first_failing_rule_witness:
  "trimmed_of (FullName shouting_record) ''Ani'' \<and>
   trimmed_of (Email shouting_record) ''x@EXAMPLE.com'' \<and>
   first_failing (spec_rules ''Ani'' ''x@EXAMPLE.com'') =
     (False, ''example.com emails are not allowed'') \<and>
   validateCustomer shouting_record = (False, ''example.com emails are not allowed'')"
proof -
  have "TrimSpace (FullName shouting_record) = ''Ani''" by code_simp
  with TrimSpace_trimmed [of "FullName shouting_record"]
  have n: "trimmed_of (FullName shouting_record) ''Ani''" by simp
  have "TrimSpace (Email shouting_record) = ''x@EXAMPLE.com''" by code_simp
  with TrimSpace_trimmed [of "Email shouting_record"]
  have e: "trimmed_of (Email shouting_record) ''x@EXAMPLE.com''" by simp
  have f: "first_failing (spec_rules ''Ani'' ''x@EXAMPLE.com'') =
      (False, ''example.com emails are not allowed'')"
    by code_simp
  from n e have "trimmed_of (FullName shouting_record) ''Ani'' \<and>
      trimmed_of (Email shouting_record) ''x@EXAMPLE.com''"
    by (rule conjI)
  then have "validateCustomer shouting_record =
      first_failing (spec_rules ''Ani'' ''x@EXAMPLE.com'')"
    by (rule validateCustomer_first_failing_rule [THEN conjunct2, rule_format])
  with f have "validateCustomer shouting_record =
      (False, ''example.com emails are not allowed'')"
    by simp
  with n e f show ?thesis by (intro conjI)
qed

text \<open>
  Read on the email as it was sent, rules 3 to 5 do not describe the code: an email with
  a space after \<open>@example.com\<close> does not end with that suffix, so no rule would fail, and
  the code rejects it.
\<close>

definition spaced_record :: CustomerPayload where
  "spaced_record = \<lparr>FullName = ''A'', Email = ''x@example.com ''\<rparr>"

theorem rules_on_given_email_counterexample:
  "trimmed_of (FullName spaced_record) ''A'' \<and>
   trimmed_of (Email spaced_record) ''x@example.com'' \<and>
   first_failing (rules_on_given_email ''A'' ''x@example.com'' (Email spaced_record)) = (True, []) \<and>
   validateCustomer spaced_record = (False, ''example.com emails are not allowed'')"
proof -
  have "TrimSpace (FullName spaced_record) = ''A''" by code_simp
  with TrimSpace_trimmed [of "FullName spaced_record"]
  have n: "trimmed_of (FullName spaced_record) ''A''" by simp
  have "TrimSpace (Email spaced_record) = ''x@example.com''" by code_simp
  with TrimSpace_trimmed [of "Email spaced_record"]
  have e: "trimmed_of (Email spaced_record) ''x@example.com''" by simp
  have f: "first_failing (rules_on_given_email ''A'' ''x@example.com'' (Email spaced_record)) =
      (True, [])"
    by code_simp
  have v: "validateCustomer spaced_record = (False, ''example.com emails are not allowed'')"
    by code_simp
  from n e f v show ?thesis by (intro conjI)
qed

text \<open>
  Rule 4 counts bytes: an email of 85 characters that takes 165 bytes is too long for the
  code. The scenarios of the specification follow.
\<close>

definition accented_email :: string where
  "accented_email = concat (replicate 80 [CHR 0xC3, CHR 0xA9]) @ ''@b.id''"

lemma email_length_counts_bytes:
  "runeCount accented_email = 85 \<and> length accented_email = 165 \<and>
   first_failing (rules_on_given_email ''Ani'' accented_email accented_email) = (True, []) \<and>
   validateCustomer \<lparr>FullName = ''Ani'', Email = accented_email\<rparr> = (False, ''email too long'')"
  by code_simp

lemma validateCustomer_scenarios:
  "validateCustomer \<lparr>FullName = [], Email = ''a@b.com''\<rparr> = (False, ''full_name is required'') \<and>
   validateCustomer \<lparr>FullName = ''A'', Email = []\<rparr> = (False, ''email is required'') \<and>
   validateCustomer \<lparr>FullName = ''A'', Email = ''no-at-sign''\<rparr> =
     (False, ''email must contain '@'' @ [CHR 0x27]) \<and>
   validateCustomer \<lparr>FullName = ''A'', Email = ''x@example.com''\<rparr> =
     (False, ''example.com emails are not allowed'') \<and>
   validateCustomer \<lparr>FullName = ''A'', Email = ''a@b.com''\<rparr> = (True, [])"
  by code_simp

text \<open>
  C4. The worker count the handler passes on is 5 for a request \<open>\<le> 0\<close>, 20 for a request
  \<open>> 20\<close>, and the request itself when that lies in \<open>[1, 20]\<close>; it always lies in
  \<open>[1, 20]\<close>. The clamp is a total function into the integers: it has no error result.
\<close>

theorem handlerWorkers_clamp:
  "(requested \<le> 0 \<longrightarrow> handlerWorkers requested = 5) \<and>
   (20 < requested \<longrightarrow> handlerWorkers requested = 20) \<and>
   (1 \<le> requested \<and> requested \<le> 20 \<longrightarrow> handlerWorkers requested = requested) \<and>
   1 \<le> handlerWorkers requested \<and> handlerWorkers requested \<le> 20"
  by (simp add: handlerWorkers_def Let_def)

theorem handlerWorkers_clamp_witness:
  "handlerWorkers (- 3) = 5 \<and> handlerWorkers 0 = 5 \<and> handlerWorkers 21 = 20 \<and>
   handlerWorkers 1 = 1 \<and> handlerWorkers 7 = 7 \<and> handlerWorkers 20 = 20"
  using handlerWorkers_clamp [of "- 3"] handlerWorkers_clamp [of 0]
    handlerWorkers_clamp [of 21] handlerWorkers_clamp [of 1]
    handlerWorkers_clamp [of 7] handlerWorkers_clamp [of 20]
  by simp










text \<open>
  C6. The message of the validator, and so of the outcome a worker builds, is non-empty
  exactly when the record is invalid; a valid outcome carries the empty message.
\<close>

theorem message_iff_invalid:
  "(snd (validateCustomer c) \<noteq> []) = (\<not> fst (validateCustomer c)) \<and>
   (Message (outcome (i, c)) \<noteq> []) = (\<not> Valid (outcome (i, c)))"
  by (simp add: outcome_def validateCustomer_message split: prod.splits)
    (metis fst_conv snd_conv validateCustomer_message)

section \<open>Further properties of the batch call\<close>

text \<open>
  C2. For worker counts \<open>w1\<close> and \<open>w2\<close> in \<open>[1, 20]\<close> (which the handler passes on
  unchanged): whatever the two schedules, two calls on the same batch that return give the
  same slice, namely \<open>expected customers\<close>, which is a function of the records alone; both
  calls have a schedule that returns, and when nothing is left to run they have returned.
\<close>

theorem validateBatch_independent_of_workers:
  assumes "1 \<le> w1" and "w1 \<le> 20" and "1 \<le> w2" and "w2 \<le> 20"
  shows "(exec customers es1 (init customers w1) = Some s1 \<and> collector s1 = Returned out1 \<and>
      exec customers es2 (init customers w2) = Some s2 \<and> collector s2 = Returned out2 \<longrightarrow>
        out1 = out2 \<and> out1 = expected customers) \<and>
    (\<exists>es s. exec customers es (init customers w1) = Some s \<and>
       collector s = Returned (expected customers)) \<and>
    (\<exists>es s. exec customers es (init customers w2) = Some s \<and>
       collector s = Returned (expected customers)) \<and>
    (exec customers es1 (init customers w1) = Some s1 \<and> blocked customers s1 \<longrightarrow>
       collector s1 = Returned (expected customers)) \<and>
    (exec customers es2 (init customers w2) = Some s2 \<and> blocked customers s2 \<longrightarrow>
       collector s2 = Returned (expected customers)) \<and>
    handlerWorkers w1 = w1 \<and> handlerWorkers w2 = w2"
proof -
  have same: "out1 = out2 \<and> out1 = expected customers"
    if "exec customers es1 (init customers w1) = Some s1 \<and> collector s1 = Returned out1 \<and>
      exec customers es2 (init customers w2) = Some s2 \<and> collector s2 = Returned out2"
    using that by (auto dest: run_result)
  have start: "exec customers [] (init customers w) = Some (init customers w)" for w
    by simp
  have ex1: "\<exists>es s. exec customers es (init customers w1) = Some s \<and>
      collector s = Returned (expected customers)"
    using run_extends [OF start [of w1]] assms(1) by fastforce
  have ex2: "\<exists>es s. exec customers es (init customers w2) = Some s \<and>
      collector s = Returned (expected customers)"
    using run_extends [OF start [of w2]] assms(3) by fastforce
  have b1: "collector s1 = Returned (expected customers)"
    if "exec customers es1 (init customers w1) = Some s1 \<and> blocked customers s1"
    using that assms(1) by (auto intro: run_blocked)
  have b2: "collector s2 = Returned (expected customers)"
    if "exec customers es2 (init customers w2) = Some s2 \<and> blocked customers s2"
    using that assms(3) by (auto intro: run_blocked)
  have h: "handlerWorkers w1 = w1 \<and> handlerWorkers w2 = w2"
    using assms by (simp add: handlerWorkers_def Let_def)
  from same ex1 ex2 b1 b2 h show ?thesis by blast
qed

theorem validateBatch_independent_of_workers_witness:
  "(1::int) \<le> 5 \<and> (5::int) \<le> 20 \<and> (1::int) \<le> 1 \<and> (1::int) \<le> 20 \<and>
   (\<exists>s1 s2 out. exec demo_batch demo_schedule (init demo_batch 5) = Some s1 \<and>
      exec demo_batch demo_schedule_1 (init demo_batch 1) = Some s2 \<and>
      collector s1 = Returned out \<and> collector s2 = Returned out \<and>
      out = expected demo_batch) \<and>
   handlerWorkers 5 = 5 \<and> handlerWorkers 1 = 1"
proof -
  have "map_option (\<lambda>s. case collector s of Returned out \<Rightarrow> True | _ \<Rightarrow> False)
      (exec demo_batch demo_schedule (init demo_batch 5)) = Some True"
    by code_simp
  then obtain s1 where "exec demo_batch demo_schedule (init demo_batch 5) = Some s1"
    "case collector s1 of Returned out \<Rightarrow> True | _ \<Rightarrow> False"
    unfolding map_option_eq_Some by blast
  then obtain out1 where 1: "exec demo_batch demo_schedule (init demo_batch 5) = Some s1"
    "collector s1 = Returned out1"
    by (cases "collector s1") simp_all
  have "map_option (\<lambda>s. case collector s of Returned out \<Rightarrow> True | _ \<Rightarrow> False)
      (exec demo_batch demo_schedule_1 (init demo_batch 1)) = Some True"
    by code_simp
  then obtain s2 where "exec demo_batch demo_schedule_1 (init demo_batch 1) = Some s2"
    "case collector s2 of Returned out \<Rightarrow> True | _ \<Rightarrow> False"
    unfolding map_option_eq_Some by blast
  then obtain out2 where 2: "exec demo_batch demo_schedule_1 (init demo_batch 1) = Some s2"
    "collector s2 = Returned out2"
    by (cases "collector s2") simp_all
  have c: "(1::int) \<le> 5" "(5::int) \<le> 20" "(1::int) \<le> 1" "(1::int) \<le> 20" by simp_all
  note inst = validateBatch_independent_of_workers
    [OF c, of demo_batch demo_schedule s1 out1 demo_schedule_1 s2 out2]
  from 1 2 have "out1 = out2 \<and> out1 = expected demo_batch"
    by (intro inst [THEN conjunct1, rule_format] conjI)
  then have eq: "out1 = out2" and ex: "out1 = expected demo_batch" by blast+
  note rest = inst [THEN conjunct2, THEN conjunct2, THEN conjunct2, THEN conjunct2, THEN conjunct2]
  have h: "handlerWorkers 5 = 5" "handlerWorkers 1 = 1"
    using rest by (rule conjunct1, rule conjunct2)
  have "\<exists>s1 s2 out. exec demo_batch demo_schedule (init demo_batch 5) = Some s1 \<and>
      exec demo_batch demo_schedule_1 (init demo_batch 1) = Some s2 \<and>
      collector s1 = Returned out \<and> collector s2 = Returned out \<and>
      out = expected demo_batch"
  proof (intro exI conjI)
    show "exec demo_batch demo_schedule (init demo_batch 5) = Some s1" by (rule 1(1))
    show "exec demo_batch demo_schedule_1 (init demo_batch 1) = Some s2" by (rule 2(1))
    show "collector s1 = Returned out1" by (rule 1(2))
    show "collector s2 = Returned out1" using 2(2) eq by simp
    show "out1 = expected demo_batch" by (rule ex)
  qed
  with c h show ?thesis by simp
qed

text \<open>
  The outcomes produced up to a state: those the collector has received and those that
  workers are offering on \<open>resultsCh\<close>.
\<close>

fun taken :: "worker \<Rightarrow> int list" where
  "taken (Working j) = [fst j]"
| "taken w = []"

fun offer :: "worker \<Rightarrow> ValidateResult list" where
  "offer (Sending r) = [r]"
| "offer w = []"

definition offered :: "worker list \<Rightarrow> ValidateResult list" where
  "offered ws = concat (map offer ws)"

definition produced :: "pool \<Rightarrow> ValidateResult list" where
  "produced s = received s @ offered (workers s)"

lemma inflight_split:
  "inflight ws = mset (concat (map taken ws)) + mset (map Index (offered ws))"
proof (induction ws)
  case Nil
  show ?case by (simp add: inflight_def offered_def)
next
  case (Cons w ws)
  then show ?case by (cases w) (simp_all add: inflight_def offered_def)
qed

lemma offered_iff: "r \<in> set (offered ws) \<longleftrightarrow> Sending r \<in> set ws"
proof (induction ws)
  case Nil
  show ?case by (simp add: offered_def)
next
  case (Cons w ws)
  then show ?case by (cases w) (auto simp: offered_def)
qed

lemma produced_distinct:
  assumes "pool_inv cs s"
  shows "distinct (map Index (produced s))"
proof -
  have "mset (concat (map taken (workers s)) @ map Index (offered (workers s)) @
      map Index (received s)) = mset (map int [0..<sent s])"
    using pool_invD(6) [OF assms] by (simp add: inflight_split add.assoc)
  moreover have "distinct (map int [0..<sent s])"
    by (simp add: distinct_map)
  ultimately have "distinct (concat (map taken (workers s)) @ map Index (offered (workers s)) @
      map Index (received s))"
    by (metis mset_eq_imp_distinct_iff)
  then have "distinct (map Index (offered (workers s)) @ map Index (received s))"
    by simp
  then show ?thesis by (auto simp: produced_def)
qed

lemma produced_range:
  assumes inv: "pool_inv cs s" and r: "r \<in> set (produced s)"
  shows "0 \<le> Index r \<and> Index r < int (length cs)"
proof -
  note d = pool_invD [OF inv]
  from r have "r \<in> set (received s) \<or> Sending r \<in> set (workers s)"
    by (auto simp: produced_def offered_iff)
  then have "\<exists>k<sent s. r = outcome (int k, cs ! k)"
  proof
    assume "r \<in> set (received s)"
    then show ?thesis by (rule d(5))
  next
    assume "Sending r \<in> set (workers s)"
    then have "worker_ok cs (sent s) (Sending r)" by (rule d(4))
    then show ?thesis by simp
  qed
  then obtain k where "k < sent s" "r = outcome (int k, cs ! k)" by blast
  with d(1) show ?thesis by simp
qed

definition demo_prefix :: "event list" where
  "demo_prefix = [Dispatch 0, Dispatch 1, Validate 1, Deliver 1, Validate 0]"

text \<open>
  C10. In every state a call can reach, with any worker count: each outcome produced so
  far has an index in \<open>[0, N)\<close>, the indices of the outcomes produced are pairwise
  distinct, and the collector has not panicked. So whenever a worker delivers an outcome,
  its index is inside \<open>out\<close>, differs from the index of every outcome received before,
  and the store \<open>out[r.Index] = r\<close> succeeds.
\<close>

theorem outcome_indices_in_range_and_distinct:
  "exec customers es (init customers n) = Some s \<longrightarrow>
     (\<forall>r\<in>set (produced s). 0 \<le> Index r \<and> Index r < int (length customers)) \<and>
     distinct (map Index (produced s)) \<and>
     collector s \<noteq> Panicked \<and>
     (\<forall>k r s'. step customers (Deliver k) s = Some s' \<and> workers s ! k = Sending r \<longrightarrow>
        0 \<le> Index r \<and> nat (Index r) < length customers \<and>
        Index r \<notin> Index ` set (received s) \<and>
        (\<exists>i out. collector s = Collecting i out \<and> length out = length customers \<and>
           collector s' = Collecting (Suc i) (out[nat (Index r) := r])))"
proof
  assume run: "exec customers es (init customers n) = Some s"
  then have inv: "pool_inv customers s" by (rule run_inv)
  have range: "\<forall>r\<in>set (produced s). 0 \<le> Index r \<and> Index r < int (length customers)"
    using produced_range [OF inv] by blast
  have dist: "distinct (map Index (produced s))"
    using inv by (rule produced_distinct)
  have deliver: "0 \<le> Index r \<and> nat (Index r) < length customers \<and>
      Index r \<notin> Index ` set (received s) \<and>
      (\<exists>i out. collector s = Collecting i out \<and> length out = length customers \<and>
         collector s' = Collecting (Suc i) (out[nat (Index r) := r]))"
    if st: "step customers (Deliver k) s = Some s'" and w: "workers s ! k = Sending r"
    for k r s'
  proof -
    from st have k: "k < length (workers s)" by (auto split: if_splits)
    with w have "Sending r \<in> set (workers s)" by (metis nth_mem)
    then have off: "r \<in> set (offered (workers s))" by (simp add: offered_iff)
    then have "r \<in> set (produced s)" by (simp add: produced_def)
    with range have b: "0 \<le> Index r" "nat (Index r) < length customers" by auto
    from dist off have fresh: "Index r \<notin> Index ` set (received s)"
      by (auto simp: produced_def)
    from st k w obtain i out where c: "collector s = Collecting i out"
      by (auto split: collector.splits)
    with pool_invD(7) [OF inv] have len: "length out = length customers"
      by (simp add: collector_ok_def)
    from inv st have "pool_inv customers s'" by (rule inv_step)
    then have "collector s' \<noteq> Panicked"
      using pool_invD(7) by (fastforce simp: collector_ok_def)
    with st k w c have "collector s' = Collecting (Suc i) (out[nat (Index r) := r])"
      by (auto split: if_splits)
    with b fresh c len show ?thesis by simp
  qed
  from range dist run_no_panic [OF run] deliver
  show "(\<forall>r\<in>set (produced s). 0 \<le> Index r \<and> Index r < int (length customers)) \<and>
     distinct (map Index (produced s)) \<and>
     collector s \<noteq> Panicked \<and>
     (\<forall>k r s'. step customers (Deliver k) s = Some s' \<and> workers s ! k = Sending r \<longrightarrow>
        0 \<le> Index r \<and> nat (Index r) < length customers \<and>
        Index r \<notin> Index ` set (received s) \<and>
        (\<exists>i out. collector s = Collecting i out \<and> length out = length customers \<and>
           collector s' = Collecting (Suc i) (out[nat (Index r) := r])))"
    by blast
qed

theorem outcome_indices_in_range_and_distinct_witness:
  "\<exists>s s'. exec demo_batch demo_prefix (init demo_batch 2) = Some s \<and>
     map Index (produced s) = [1, 0] \<and> length demo_batch = 2 \<and>
     workers s ! 0 = Sending (expected demo_batch ! 0) \<and>
     step demo_batch (Deliver 0) s = Some s' \<and>
     Index ` set (received s) = {1} \<and>
     (\<exists>i out. collector s = Collecting i out \<and> length out = 2 \<and>
        collector s' = Collecting (Suc i) (out[0 := expected demo_batch ! 0]))"
proof -
  have "map_option (\<lambda>s. (map Index (produced s), workers s ! 0, map Index (received s),
        map_option collector (step demo_batch (Deliver 0) s) \<noteq> None))
      (exec demo_batch demo_prefix (init demo_batch 2)) =
      Some ([1, 0], Sending (expected demo_batch ! 0), [1], True)"
    by code_simp
  then obtain s where s: "exec demo_batch demo_prefix (init demo_batch 2) = Some s"
    "map Index (produced s) = [1, 0]" "workers s ! 0 = Sending (expected demo_batch ! 0)"
    "map Index (received s) = [1]" "step demo_batch (Deliver 0) s \<noteq> None"
    unfolding map_option_eq_Some by auto
  then obtain s' where s': "step demo_batch (Deliver 0) s = Some s'" by blast
  have len: "length demo_batch = 2" by (simp add: demo_batch_def)
  have idx: "Index (expected demo_batch ! 0) = 0" by (simp add: nth_expected len)
  have "Index ` set (received s) = set (map Index (received s))" by simp
  also have "\<dots> = {1}" unfolding s(4) by simp
  finally have rs: "Index ` set (received s) = {1}" .
  note facts = outcome_indices_in_range_and_distinct
    [of demo_batch demo_prefix 2 s, rule_format, OF s(1)]
  note deliver = facts [THEN conjunct2, THEN conjunct2, THEN conjunct2, rule_format,
    of 0 s' "expected demo_batch ! 0"]
  have "step demo_batch (Deliver 0) s = Some s' \<and>
      workers s ! 0 = Sending (expected demo_batch ! 0)"
    using s' s(3) by simp
  then have "\<exists>i out. collector s = Collecting i out \<and> length out = length demo_batch \<and>
      collector s' = Collecting (Suc i)
        (out[nat (Index (expected demo_batch ! 0)) := expected demo_batch ! 0])"
    by (rule deliver [THEN conjunct2, THEN conjunct2, THEN conjunct2])
  then obtain i out where io: "collector s = Collecting i out" "length out = 2"
    "collector s' = Collecting (Suc i) (out[0 := expected demo_batch ! 0])"
    unfolding idx len by auto
  show ?thesis
  proof (intro exI conjI)
    show "exec demo_batch demo_prefix (init demo_batch 2) = Some s" by (rule s(1))
    show "map Index (produced s) = [1, 0]" by (rule s(2))
    show "length demo_batch = 2" by (rule len)
    show "workers s ! 0 = Sending (expected demo_batch ! 0)" by (rule s(3))
    show "step demo_batch (Deliver 0) s = Some s'" by (rule s')
    show "Index ` set (received s) = {1}" by (rule rs)
    show "collector s = Collecting i out" by (rule io(1))
    show "length out = 2" by (rule io(2))
    show "collector s' = Collecting (Suc i) (out[0 := expected demo_batch ! 0])" by (rule io(3))
  qed
qed

text \<open>
  C9. The email of an outcome is the trimmed email of the record, in the outcome a worker
  builds and at every position of a slice the call returns; when the email of the record
  starts or ends with a white-space rune, the email of the outcome differs from it.
\<close>

theorem outcome_email_is_trimmed:
  "Email_res (outcome (i, c)) = TrimSpace (Email c) \<and>
   (leadingSpace (Email c) \<noteq> 0 \<or> trailingSpace (Email c) \<noteq> 0 \<longrightarrow>
      Email_res (outcome (i, c)) \<noteq> Email c) \<and>
   (exec customers es (init customers n) = Some s \<and> collector s = Returned out \<and>
      k < length customers \<longrightarrow>
      Email_res (out ! k) = TrimSpace (Email (customers ! k)))"
proof (intro conjI impI)
  show e: "Email_res (outcome (i, c)) = TrimSpace (Email c)"
    by (simp add: outcome_def split: prod.splits)
  show "Email_res (outcome (i, c)) \<noteq> Email c"
    if "leadingSpace (Email c) \<noteq> 0 \<or> trailingSpace (Email c) \<noteq> 0"
  proof -
    from that have "length (TrimSpace (Email c)) < length (Email c)"
      by (rule TrimSpace_shorter)
    then have "TrimSpace (Email c) \<noteq> Email c" by auto
    with e show ?thesis by simp
  qed
  show "Email_res (out ! k) = TrimSpace (Email (customers ! k))"
    if "exec customers es (init customers n) = Some s \<and> collector s = Returned out \<and>
      k < length customers"
  proof -
    from that have "out = expected customers" by (auto dest: run_result)
    with that show ?thesis
      by (simp add: nth_expected outcome_def split: prod.splits)
  qed
qed

theorem outcome_email_is_trimmed_witness:
  "leadingSpace '' ani@mail.id '' = 1 \<and> trailingSpace '' ani@mail.id '' = 1 \<and>
   Email (demo_batch ! 0) = '' ani@mail.id '' \<and>
   Email_res (outcome (0, demo_batch ! 0)) = ''ani@mail.id'' \<and>
   Email_res (outcome (0, demo_batch ! 0)) \<noteq> Email (demo_batch ! 0) \<and>
   (\<exists>s out. exec demo_batch demo_schedule (init demo_batch 5) = Some s \<and>
      collector s = Returned out \<and> Email_res (out ! 0) = ''ani@mail.id'')"
proof -
  have l: "leadingSpace '' ani@mail.id '' = 1" by code_simp
  have r: "trailingSpace '' ani@mail.id '' = 1" by code_simp
  have t: "TrimSpace '' ani@mail.id '' = ''ani@mail.id''" by code_simp
  have d: "Email (demo_batch ! 0) = '' ani@mail.id ''" by (simp add: demo_batch_def)
  have len: "0 < length demo_batch" by (simp add: demo_batch_def)
  have "map_option (\<lambda>s. case collector s of Returned out \<Rightarrow> True | _ \<Rightarrow> False)
      (exec demo_batch demo_schedule (init demo_batch 5)) = Some True"
    by code_simp
  then obtain s where "exec demo_batch demo_schedule (init demo_batch 5) = Some s"
    "case collector s of Returned out \<Rightarrow> True | _ \<Rightarrow> False"
    unfolding map_option_eq_Some by blast
  then obtain out where run: "exec demo_batch demo_schedule (init demo_batch 5) = Some s"
    "collector s = Returned out"
    by (cases "collector s") simp_all
  note inst = outcome_email_is_trimmed
    [of 0 "demo_batch ! 0" demo_batch demo_schedule 5 s out 0]
  from inst have a: "Email_res (outcome (0, demo_batch ! 0)) = ''ani@mail.id''"
    unfolding d t by (rule conjunct1)
  have "leadingSpace (Email (demo_batch ! 0)) \<noteq> 0 \<or> trailingSpace (Email (demo_batch ! 0)) \<noteq> 0"
    unfolding d l by simp
  then have b: "Email_res (outcome (0, demo_batch ! 0)) \<noteq> Email (demo_batch ! 0)"
    by (rule inst [THEN conjunct2, THEN conjunct1, rule_format])
  have "exec demo_batch demo_schedule (init demo_batch 5) = Some s \<and>
      collector s = Returned out \<and> 0 < length demo_batch"
    using run len by simp
  then have "Email_res (out ! 0) = TrimSpace (Email (demo_batch ! 0))"
    by (rule inst [THEN conjunct2, THEN conjunct2, rule_format])
  then have c: "Email_res (out ! 0) = ''ani@mail.id''" unfolding d t .
  have "\<exists>s out. exec demo_batch demo_schedule (init demo_batch 5) = Some s \<and>
      collector s = Returned out \<and> Email_res (out ! 0) = ''ani@mail.id''"
  proof (intro exI conjI)
    show "exec demo_batch demo_schedule (init demo_batch 5) = Some s" by (rule run(1))
    show "collector s = Returned out" by (rule run(2))
    show "Email_res (out ! 0) = ''ani@mail.id''" by (rule c)
  qed
  with l r d a b show ?thesis by simp
qed

lemma outcome_fields:
  "Valid (outcome j) = fst (validateCustomer (snd j))"
  "Message (outcome j) = snd (validateCustomer (snd j))"
  by (simp_all add: outcome_def case_prod_beta)

text \<open>
  C8. No schedule, with any worker count, reaches a panic of the collector, which is the
  only statement of the pool that can fail; with the worker count of the handler every call
  can run on to its return and has returned when nothing is left to run. A record that
  fails validation is an entry of the returned slice like any other: its outcome has
  \<open>Valid = False\<close> and a non-empty message.
\<close>

theorem validateBatch_never_fails:
  "(exec customers es (init customers n) = Some s \<longrightarrow> collector s \<noteq> Panicked) \<and>
   (exec customers es (init customers (handlerWorkers requested)) = Some s \<longrightarrow>
      (\<exists>es' s'. exec customers (es @ es') (init customers (handlerWorkers requested)) = Some s' \<and>
         collector s' = Returned (expected customers)) \<and>
      (blocked customers s \<longrightarrow> collector s = Returned (expected customers))) \<and>
   (\<forall>i<length customers.
      expected customers ! i = outcome (int i, customers ! i) \<and>
      (\<not> fst (validateCustomer (customers ! i)) \<longrightarrow>
         \<not> Valid (expected customers ! i) \<and> Message (expected customers ! i) \<noteq> []))"
proof (intro conjI impI allI)
  show "collector s \<noteq> Panicked" if "exec customers es (init customers n) = Some s"
    using that by (rule run_no_panic)
next
  assume run: "exec customers es (init customers (handlerWorkers requested)) = Some s"
  have pop: "1 \<le> handlerWorkers requested \<or> customers = []"
    using handlerWorkers_range by simp
  from run_extends [OF run pop]
  show "\<exists>es' s'. exec customers (es @ es') (init customers (handlerWorkers requested)) = Some s' \<and>
      collector s' = Returned (expected customers)"
    by blast
  show "collector s = Returned (expected customers)" if "blocked customers s"
    using run pop that by (rule run_blocked)
next
  fix i assume i: "i < length customers"
  show "expected customers ! i = outcome (int i, customers ! i)"
    using i by (rule nth_expected)
  assume bad: "\<not> fst (validateCustomer (customers ! i))"
  then have "snd (validateCustomer (customers ! i)) \<noteq> []"
    by (simp add: validateCustomer_message)
  with bad show "\<not> Valid (expected customers ! i)" "Message (expected customers ! i) \<noteq> []"
    using i by (simp_all add: nth_expected outcome_fields)
qed

theorem validateBatch_never_fails_witness:
  "(\<exists>s. exec demo_batch demo_schedule (init demo_batch (handlerWorkers 0)) = Some s \<and>
      blocked demo_batch s \<and> collector s \<noteq> Panicked \<and>
      collector s = Returned (expected demo_batch)) \<and>
   fst (validateCustomer (demo_batch ! 1)) = False \<and>
   Valid (expected demo_batch ! 1) = False \<and> Message (expected demo_batch ! 1) \<noteq> []"
proof -
  have "map_option (blocked demo_batch)
      (exec demo_batch demo_schedule (init demo_batch (handlerWorkers 0))) = Some True"
    by code_simp
  then obtain s where run: "exec demo_batch demo_schedule (init demo_batch (handlerWorkers 0)) = Some s"
    and b: "blocked demo_batch s"
    unfolding map_option_eq_Some by blast
  note inst = validateBatch_never_fails [of demo_batch demo_schedule "handlerWorkers 0" s 0]
  from run have np: "collector s \<noteq> Panicked"
    by (rule inst [THEN conjunct1, rule_format])
  from run have "(\<exists>es' s'. exec demo_batch (demo_schedule @ es')
        (init demo_batch (handlerWorkers 0)) = Some s' \<and>
        collector s' = Returned (expected demo_batch)) \<and>
      (blocked demo_batch s \<longrightarrow> collector s = Returned (expected demo_batch))"
    by (rule inst [THEN conjunct2, THEN conjunct1, rule_format])
  with b have ret: "collector s = Returned (expected demo_batch)" by simp
  have len: "1 < length demo_batch" by (simp add: demo_batch_def)
  have bad: "\<not> fst (validateCustomer (demo_batch ! 1))" by code_simp
  from len have rec: "expected demo_batch ! 1 = outcome (int 1, demo_batch ! 1) \<and>
      (\<not> fst (validateCustomer (demo_batch ! 1)) \<longrightarrow>
         \<not> Valid (expected demo_batch ! 1) \<and> Message (expected demo_batch ! 1) \<noteq> [])"
    by (rule inst [THEN conjunct2, THEN conjunct2, rule_format])
  have "\<exists>s. exec demo_batch demo_schedule (init demo_batch (handlerWorkers 0)) = Some s \<and>
      blocked demo_batch s \<and> collector s \<noteq> Panicked \<and>
      collector s = Returned (expected demo_batch)"
  proof (intro exI conjI)
    show "exec demo_batch demo_schedule (init demo_batch (handlerWorkers 0)) = Some s"
      by (rule run)
    show "blocked demo_batch s" by (rule b)
    show "collector s \<noteq> Panicked" by (rule np)
    show "collector s = Returned (expected demo_batch)" by (rule ret)
  qed
  moreover from rec bad have "\<not> Valid (expected demo_batch ! 1) \<and>
      Message (expected demo_batch ! 1) \<noteq> []"
    by blast
  ultimately show ?thesis using bad by simp
qed

text \<open>
  With no worker and a batch that is not empty, the pool on its own would block for ever:
  no goroutine can take a step and the collector has not returned. The handler never calls
  it so, since its worker count is at least 1.
\<close>

lemma pool_without_workers_blocks:
  "blocked [c] (init [c] 0) \<and> collector (init [c] 0) = Collecting 0 [zeroResult]"
  by (simp add: blocked_def events_def init_def)

text \<open>
  The empty batch. The pool starts its workers before it looks at the batch, so an empty
  batch starts them too: for a request of 0 workers the handler's five.
\<close>

theorem empty_batch_spawns_workers:
  "workers (init [] (handlerWorkers 0)) = [Waiting, Waiting, Waiting, Waiting, Waiting] \<and>
   workers (init [] (handlerWorkers 0)) \<noteq> []"
  by (simp add: init_def handlerWorkers_def Let_def eval_nat_numeral)

lemma empty_batch_state:
  assumes "exec [] es (init [] n) = Some s"
  shows "received s = []"
    and "collector s = Returned [] \<or> collector s = Collecting 0 []"
proof -
  from assms have inv: "pool_inv [] s" by (rule run_inv)
  note d = pool_invD [OF inv]
  from inflight_size [OF inv] d(1) show r: "received s = []" by simp
  show "collector s = Returned [] \<or> collector s = Collecting 0 []"
  proof (cases "collector s")
    case (Collecting i out)
    with d(7) r show ?thesis by (simp add: collector_ok_def)
  next
    case (Returned out)
    with d(7) show ?thesis by (simp add: collector_ok_def expected_def)
  next
    case Panicked
    with d(7) show ?thesis by (simp add: collector_ok_def)
  qed
qed

text \<open>
  A call that can go no further has returned, has closed \<open>jobs\<close> and has no worker left
  in its loop, and every call can go on to that state.
\<close>

lemma run_blocked_final:
  assumes run: "exec cs es (init cs n) = Some s" and pop: "1 \<le> n \<or> cs = []"
    and b: "blocked cs s"
  shows "collector s = Returned (expected cs) \<and> closed s \<and>
    workers s = replicate (nat n) Exited"
proof -
  note f = blocked_final [OF run_inv [OF run] run_populated [OF run pop] b]
  from exec_length_workers [OF run] have len: "length (workers s) = nat n"
    by (simp add: init_def)
  from f(3) have "\<forall>w\<in>set (workers s). w = Exited" by blast
  then have "replicate (length (workers s)) Exited = workers s"
    by (rule replicate_length_same)
  with len f(1,2) show ?thesis by simp
qed

lemma run_finishes:
  assumes run: "exec cs es (init cs n) = Some s" and pop: "1 \<le> n \<or> cs = []"
  shows "\<exists>es' s'. exec cs (es @ es') (init cs n) = Some s' \<and>
    collector s' = Returned (expected cs) \<and> closed s' \<and>
    workers s' = replicate (nat n) Exited"
proof -
  from run_extends [OF run pop] obtain es' s'
    where e: "exec cs (es @ es') (init cs n) = Some s'" and b: "blocked cs s'"
    by blast
  from run_blocked_final [OF e pop b] e
  have "exec cs (es @ es') (init cs n) = Some s' \<and>
      collector s' = Returned (expected cs) \<and> closed s' \<and>
      workers s' = replicate (nat n) Exited"
    by simp
  then show ?thesis by blast
qed

text \<open>
  C7, as the code has it. For the empty batch the collector can return the empty slice
  as its first step, from the start and from every state a schedule reaches before it has
  done so: it never waits for an outcome, and none is ever received. The workers are
  started all the same, \<open>nat n\<close> of them. No job is handed to them and none delivers a
  result; a worker leaves its loop only once \<open>jobs\<close> is closed; every schedule can go on
  until \<open>jobs\<close> is closed and all workers have left, and when nothing is left to run that
  is the state.
\<close>

theorem empty_batch_returns_at_once:
  "step [] Return (init [] n) = Some ((init [] n)\<lparr>collector := Returned []\<rparr>) \<and>
   length (workers (init [] n)) = nat n \<and>
   (exec [] es (init [] n) = Some s \<longrightarrow>
      received s = [] \<and>
      (collector s = Returned [] \<or>
       collector s = Collecting 0 [] \<and>
       step [] Return s = Some (s\<lparr>collector := Returned []\<rparr>)) \<and>
      step [] (Dispatch k) s = None \<and> step [] (Deliver k) s = None \<and>
      (step [] (Exit k) s \<noteq> None \<longrightarrow> closed s) \<and>
      (\<exists>es' s'. exec [] (es @ es') (init [] n) = Some s' \<and> collector s' = Returned [] \<and>
         closed s' \<and> workers s' = replicate (nat n) Exited) \<and>
      (blocked [] s \<longrightarrow>
         collector s = Returned [] \<and> closed s \<and> workers s = replicate (nat n) Exited))"
proof (intro conjI impI)
  show "step [] Return (init [] n) = Some ((init [] n)\<lparr>collector := Returned []\<rparr>)"
    by (simp add: init_def)
  show "length (workers (init [] n)) = nat n"
    by (simp add: init_def)
next
  assume run: "exec [] es (init [] n) = Some s"
  have pop: "1 \<le> n \<or> ([]::CustomerPayload list) = []" by simp
  have ex: "expected [] = []" by (simp add: expected_def)
  from run show "received s = []" by (rule empty_batch_state)
  from empty_batch_state(2) [OF run]
  show "collector s = Returned [] \<or>
      collector s = Collecting 0 [] \<and> step [] Return s = Some (s\<lparr>collector := Returned []\<rparr>)"
    by auto
  show "step [] (Dispatch k) s = None" by simp
  show "step [] (Deliver k) s = None"
    by (simp split: worker.splits collector.splits)
  show "closed s" if "step [] (Exit k) s \<noteq> None"
    using that by (simp split: if_splits)
  from run_finishes [OF run pop]
  show "\<exists>es' s'. exec [] (es @ es') (init [] n) = Some s' \<and> collector s' = Returned [] \<and>
      closed s' \<and> workers s' = replicate (nat n) Exited"
    by (simp add: ex)
  show "collector s = Returned []" "closed s" "workers s = replicate (nat n) Exited"
    if "blocked [] s"
    using run_blocked_final [OF run pop that] by (simp_all add: ex)
qed

definition empty_schedule :: "event list" where
  "empty_schedule = [CloseJobs, Exit 3, Return, Exit 0, Exit 4, Exit 1, Exit 2]"

theorem empty_batch_returns_at_once_witness:
  "step [] Return (init [] 5) = Some ((init [] 5)\<lparr>collector := Returned []\<rparr>) \<and>
   length (workers (init [] 5)) = 5 \<and>
   (\<exists>s. exec [] [CloseJobs, Exit 3] (init [] 5) = Some s \<and> received s = [] \<and>
      collector s = Collecting 0 [] \<and>
      step [] Return s = Some (s\<lparr>collector := Returned []\<rparr>) \<and>
      step [] (Exit 0) s \<noteq> None \<and> closed s) \<and>
   (\<exists>s. exec [] empty_schedule (init [] 5) = Some s \<and> blocked [] s \<and>
      collector s = Returned [] \<and> closed s \<and>
      workers s = [Exited, Exited, Exited, Exited, Exited])"
proof -
  have "map_option (\<lambda>s. (collector s, step [] (Exit 0) s \<noteq> None))
      (exec [] [CloseJobs, Exit 3] (init [] 5)) = Some (Collecting 0 [], True)"
    by code_simp
  then obtain s where run: "exec [] [CloseJobs, Exit 3] (init [] 5) = Some s"
    and c: "collector s = Collecting 0 []" and x: "step [] (Exit 0) s \<noteq> None"
    unfolding map_option_eq_Some by blast
  note inst = empty_batch_returns_at_once [of 5 "[CloseJobs, Exit 3]" s 0]
  from inst have a: "step [] Return (init [] 5) = Some ((init [] 5)\<lparr>collector := Returned []\<rparr>)"
    by (rule conjunct1)
  from inst have l: "length (workers (init [] 5)) = 5" by simp
  note rest = inst [THEN conjunct2, THEN conjunct2, rule_format, OF run]
  from rest have r: "received s = []" by (rule conjunct1)
  from rest c have st: "step [] Return s = Some (s\<lparr>collector := Returned []\<rparr>)"
    by simp
  from x have cl: "closed s"
    by (rule rest [THEN conjunct2, THEN conjunct2, THEN conjunct2, THEN conjunct2,
          THEN conjunct1, rule_format])
  have first: "\<exists>s. exec [] [CloseJobs, Exit 3] (init [] 5) = Some s \<and> received s = [] \<and>
      collector s = Collecting 0 [] \<and>
      step [] Return s = Some (s\<lparr>collector := Returned []\<rparr>) \<and>
      step [] (Exit 0) s \<noteq> None \<and> closed s"
  proof (intro exI conjI)
    show "exec [] [CloseJobs, Exit 3] (init [] 5) = Some s" by (rule run)
    show "received s = []" by (rule r)
    show "collector s = Collecting 0 []" by (rule c)
    show "step [] Return s = Some (s\<lparr>collector := Returned []\<rparr>)" by (rule st)
    show "step [] (Exit 0) s \<noteq> None" by (rule x)
    show "closed s" by (rule cl)
  qed
  have "map_option (blocked []) (exec [] empty_schedule (init [] 5)) = Some True"
    by code_simp
  then obtain s' where run': "exec [] empty_schedule (init [] 5) = Some s'"
    and b: "blocked [] s'"
    unfolding map_option_eq_Some by blast
  note inst' = empty_batch_returns_at_once [of 5 empty_schedule s' 0]
  note rest' = inst' [THEN conjunct2, THEN conjunct2, rule_format, OF run']
  from b have fin: "collector s' = Returned [] \<and> closed s' \<and>
      workers s' = replicate (nat 5) Exited"
    by (rule rest' [THEN conjunct2, THEN conjunct2, THEN conjunct2, THEN conjunct2,
          THEN conjunct2, THEN conjunct2, rule_format])
  have rep: "replicate (nat 5) Exited = [Exited, Exited, Exited, Exited, Exited]"
    by (simp add: eval_nat_numeral)
  have second: "\<exists>s. exec [] empty_schedule (init [] 5) = Some s \<and> blocked [] s \<and>
      collector s = Returned [] \<and> closed s \<and>
      workers s = [Exited, Exited, Exited, Exited, Exited]"
  proof (intro exI conjI)
    show "exec [] empty_schedule (init [] 5) = Some s'" by (rule run')
    show "blocked [] s'" by (rule b)
    show "collector s' = Returned []" using fin by simp
    show "closed s'" using fin by simp
    show "workers s' = [Exited, Exited, Exited, Exited, Exited]"
      using fin unfolding rep by simp
  qed
  from a l first second show ?thesis by (intro conjI)
qed

end
